theory Spec2Isabelle
  imports Main "HOL-Library.Sublist"
begin

section \<open>Data model of \<^verbatim>\<open>src/api/listCommits.js\<close>\<close>

text \<open>
  Object ids and reference names are JavaScript strings. An object id is the hexadecimal
  hash of an object, so it never names a property of \<^verbatim>\<open>Object.prototype\<close>; on such
  keys \<^verbatim>\<open>visited.hasOwnProperty(k)\<close> and \<^verbatim>\<open>k in visited\<close> agree, and both are
  modelled as membership in the domain of the map.
\<close>

type_synonym oid = string
type_synonym ref = string

text \<open>The \<^verbatim>\<open>type\<close> field of what \<^verbatim>\<open>readObject\<close> returns: the four kinds of git objects.\<close>

datatype objtype = Blob | Tree | Commit | Tag

text \<open>
  The errors that are constructed in the file or by \<^verbatim>\<open>assertParameter\<close>, the
  \<^verbatim>\<open>TypeError\<close> of the JavaScript runtime, and an opaque kind for whatever a
  collaborator throws. A thrown value carries the \<^verbatim>\<open>caller\<close> property that the
  \<^verbatim>\<open>catch\<close> clause of \<^verbatim>\<open>listCommits\<close> assigns; \<open>None\<close> is an error without it.
\<close>

datatype error_kind =
    MissingParameterError string
  | ObjectTypeError oid objtype objtype
  | TypeError
  | CollaboratorError string

record exn =
  kind :: error_kind
  caller :: "string option"

text \<open>
  The result of an asynchronous call: it throws, it returns, or (in the model only) the
  recursion budget of the walk is used up before it does either.
\<close>

datatype 'a outcome = Diverges | Throws exn | Returns 'a

text \<open>The records of \<^verbatim>\<open>visited\<close>: \<^verbatim>\<open>{ children: [] }\<close>.\<close>

record node =
  children :: "oid list"

text \<open>
  The state the walk mutates: the object \<^verbatim>\<open>visited\<close>, and the sequence of object ids
  that have been passed to \<^verbatim>\<open>readObject\<close> (one entry per call of \<^verbatim>\<open>walk\<close> whose
  read succeeded); the latter records the effect of the walk on the object reader.
\<close>

record walk_state =
  visited :: "oid \<rightharpoonup> node"
  reads :: "oid list"

text \<open>
  The collaborators, as seen through the file system at \<^verbatim>\<open>gitdir\<close>:
  \<^verbatim>\<open>listBranches\<close>, \<^verbatim>\<open>GitShallowManager.read\<close>, \<^verbatim>\<open>GitRefManager.resolve\<close>,
  \<^verbatim>\<open>readObject\<close>, \<^verbatim>\<open>GitAnnotatedTag.from(object).headers().object\<close> and
  \<^verbatim>\<open>GitCommit.from(object).headers().parent\<close>. The payload type \<open>'p\<close> is what
  \<^verbatim>\<open>readObject\<close> returns in \<^verbatim>\<open>object\<close>.
\<close>

record 'p repo =
  listBranches :: "exn + ref list"
  shallow_read :: "exn + oid set"
  resolve :: "ref \<Rightarrow> exn + oid"
  readObject :: "oid \<Rightarrow> exn + (objtype \<times> 'p)"
  tag_object :: "'p \<Rightarrow> oid"
  commit_parent :: "'p \<Rightarrow> oid list"

text \<open>
  The arguments of \<^verbatim>\<open>listCommits\<close> (lines 39 to 43): \<^verbatim>\<open>fs\<close>, \<^verbatim>\<open>dir\<close> and
  \<^verbatim>\<open>gitdir\<close>; \<open>None\<close> is \<^verbatim>\<open>undefined\<close>. The type \<open>'f\<close> is that of the file system
  client: the collaborators that are reached through it.
\<close>

record 'f call_args =
  fs :: "'f option"
  dir :: "string option"
  gitdir :: "string option"

section \<open>The walk\<close>

text \<open>
  Lines 93 to 96, the bookkeeping of one parent edge:
  \<^verbatim>\<open>if (!(parentOid in visited)) visited[parentOid] = { children: [] }\<close> and then
  \<^verbatim>\<open>visited[parentOid].children.push(oid)\<close>. The key is there after the first
  statement, so the \<open>None\<close> case of the second never arises.
\<close>

definition record_edge :: "oid \<Rightarrow> oid \<Rightarrow> (oid \<rightharpoonup> node) \<Rightarrow> (oid \<rightharpoonup> node)" where
  "record_edge parentOid oid v =
     (let v1 = (if parentOid \<notin> dom v then v(parentOid \<mapsto> \<lparr>children = []\<rparr>) else v)
      in case v1 parentOid of
           None \<Rightarrow> v1
         | Some nd \<Rightarrow> v1(parentOid \<mapsto> nd\<lparr>children := children nd @ [oid]\<rparr>))"

text \<open>
  \<^verbatim>\<open>walk\<close> (lines 70 to 99) and the loop over the parents (lines 85 to 97). The first
  number bounds the depth of the recursion: the source has no such bound and relies on
  the store being acyclic. \<open>shallows\<close> is the set read at line 53.
\<close>

fun walk :: "'p repo \<Rightarrow> oid set \<Rightarrow> nat \<Rightarrow> oid \<Rightarrow> walk_state \<Rightarrow> walk_state outcome"
and for_parents ::
  "'p repo \<Rightarrow> oid set \<Rightarrow> nat \<Rightarrow> oid \<Rightarrow> oid list \<Rightarrow> walk_state \<Rightarrow> walk_state outcome"
where
  "walk r shallows 0 oid st = Diverges"
| "walk r shallows (Suc n) oid st =
     (case readObject r oid of
        Inl err \<Rightarrow> Throws err
      | Inr (type, object) \<Rightarrow>
          let st1 = st\<lparr>reads := reads st @ [oid]\<rparr> in
          if type = Tag then walk r shallows n (tag_object r object) st1
          else if type \<noteq> Commit then
            Throws \<lparr>kind = ObjectTypeError oid type Commit, caller = None\<rparr>
          else if oid \<notin> shallows then
            for_parents r shallows n oid (commit_parent r object) st1
          else Returns st1)"
| "for_parents r shallows n oid [] st = Returns st"
| "for_parents r shallows n oid (parentOid # parents) st =
     (case (if parentOid \<notin> dom (visited st) then walk r shallows n parentOid st
            else Returns st) of
        Diverges \<Rightarrow> Diverges
      | Throws err \<Rightarrow> Throws err
      | Returns st1 \<Rightarrow>
          for_parents r shallows n oid parents
            (st1\<lparr>visited := record_edge parentOid oid (visited st1)\<rparr>))"

text \<open>
  Lines 101 to 104: every starting hash is bound to \<^verbatim>\<open>{ children: [] }\<close> and walked.
\<close>

fun walk_all :: "'p repo \<Rightarrow> oid set \<Rightarrow> nat \<Rightarrow> oid list \<Rightarrow> walk_state \<Rightarrow> walk_state outcome"
where
  "walk_all r shallows n [] st = Returns st"
| "walk_all r shallows n (oid # oids) st =
     (case walk r shallows n oid (st\<lparr>visited := (visited st)(oid \<mapsto> \<lparr>children = []\<rparr>)\<rparr>) of
        Diverges \<Rightarrow> Diverges
      | Throws err \<Rightarrow> Throws err
      | Returns st1 \<Rightarrow> walk_all r shallows n oids st1)"

section \<open>\<^verbatim>\<open>listCommits\<close>\<close>

text \<open>
  \<^verbatim>\<open>Set.prototype.add\<close>: a JavaScript \<^verbatim>\<open>Set\<close> iterates in insertion order and
  ignores a value it already holds.
\<close>

definition set_add :: "'a list \<Rightarrow> 'a \<Rightarrow> 'a list" where
  "set_add xs x = (if x \<in> set xs then xs else xs @ [x])"

text \<open>
  Modelled from the spec: \<^verbatim>\<open>assertParameter\<close> lives in \<^verbatim>\<open>utils/assertParameter.js\<close>,
  which is not among the sources. A missing (undefined) parameter is a failure of
  \<^verbatim>\<open>listCommits\<close>; the error names the parameter.
\<close>

definition assertParameter :: "string \<Rightarrow> 'a option \<Rightarrow> exn + unit" where
  "assertParameter name v =
     (case v of
        None \<Rightarrow> Inl \<lparr>kind = MissingParameterError name, caller = None\<rparr>
      | Some _ \<Rightarrow> Inr ())"

text \<open>Lines 56 to 58: the starting references are resolved; the first failure throws.\<close>

fun resolve_start :: "'p repo \<Rightarrow> ref list \<Rightarrow> oid list \<Rightarrow> exn + oid list" where
  "resolve_start r [] startingSet = Inr startingSet"
| "resolve_start r (ref # refs) startingSet =
     (case resolve r ref of
        Inl err \<Rightarrow> Inl err
      | Inr oid \<Rightarrow> resolve_start r refs (set_add startingSet oid))"

text \<open>Lines 59 to 65: the finishing references are resolved inside \<^verbatim>\<open>try { } catch { }\<close>.\<close>

fun resolve_finish :: "'p repo \<Rightarrow> ref list \<Rightarrow> oid list \<Rightarrow> oid list" where
  "resolve_finish r [] finishingSet = finishingSet"
| "resolve_finish r (ref # refs) finishingSet =
     (case resolve r ref of
        Inl err \<Rightarrow> resolve_finish r refs finishingSet
      | Inr oid \<Rightarrow> resolve_finish r refs (set_add finishingSet oid))"

text \<open>
  Modelled from the spec: \<^verbatim>\<open>join\<close> lives in \<^verbatim>\<open>utils/join.js\<close>, which is not among
  the sources. It normalises every part as a string and puts the parts together with
  \<^verbatim>\<open>/\<close>; called with an undefined part it throws a \<^verbatim>\<open>TypeError\<close>. The normalisation
  of the path is left out: the model makes no use of the resulting string.
\<close>

definition join :: "string option \<Rightarrow> string \<Rightarrow> exn + string" where
  "join part rest =
     (case part of
        None \<Rightarrow> Inl \<lparr>kind = TypeError, caller = None\<rparr>
      | Some d \<Rightarrow> Inr (d @ ''/'' @ rest))"

text \<open>
  Line 42, the default \<^verbatim>\<open>gitdir = join(dir, '.git')\<close> in the parameter list: it is
  evaluated when \<^verbatim>\<open>gitdir\<close> is undefined, before the body of the function and so
  before the \<^verbatim>\<open>try\<close> of line 45.
\<close>

definition default_gitdir :: "'f call_args \<Rightarrow> exn + string" where
  "default_gitdir a =
     (case gitdir a of
        Some g \<Rightarrow> Inr g
      | None \<Rightarrow> join (dir a) ''.git'')"

text \<open>
  The body of the \<^verbatim>\<open>try\<close> block (lines 46 to 105), given \<^verbatim>\<open>fs\<close> and the value of
  \<^verbatim>\<open>gitdir\<close> after its default, with the list \<^verbatim>\<open>finish\<close> of line 52 as a parameter,
  and returning the whole final state of the walk. The third \<open>case\<close> is
  \<^verbatim>\<open>new FileSystem(fs)\<close>; its \<open>None\<close> branch is never taken, since
  \<^verbatim>\<open>assertParameter('fs', fs)\<close> has thrown before. The \<^verbatim>\<open>console.log\<close> calls of the
  source are left out.
\<close>

definition listCommits_try ::
  "ref list \<Rightarrow> nat \<Rightarrow> 'p repo option \<Rightarrow> string \<Rightarrow> walk_state outcome" where
  "listCommits_try finish n client gd =
     (case assertParameter ''fs'' client of
        Inl err \<Rightarrow> Throws err
      | Inr _ \<Rightarrow>
     (case assertParameter ''gitdir'' (Some gd) of
        Inl err \<Rightarrow> Throws err
      | Inr _ \<Rightarrow>
     (case client of
        None \<Rightarrow> Throws \<lparr>kind = MissingParameterError ''fs'', caller = None\<rparr>
      | Some newFS \<Rightarrow>
     (case listBranches newFS of
        Inl err \<Rightarrow> Throws err
      | Inr start \<Rightarrow>
     (case shallow_read newFS of
        Inl err \<Rightarrow> Throws err
      | Inr shallows \<Rightarrow>
     (case resolve_start newFS start [] of
        Inl err \<Rightarrow> Throws err
      | Inr startingSet \<Rightarrow>
          let finishingSet = resolve_finish newFS finish []
          in walk_all newFS shallows n startingSet \<lparr>visited = Map.empty, reads = []\<rparr>))))))"

text \<open>
  Lines 106 to 109, the \<^verbatim>\<open>catch\<close> clause: \<^verbatim>\<open>err.caller = 'git.listBranches'\<close>, and
  the error is thrown again. An error of the parameter default does not pass through it.
\<close>

definition rethrow :: "'a outcome \<Rightarrow> 'a outcome" where
  "rethrow res =
     (case res of
        Diverges \<Rightarrow> Diverges
      | Throws err \<Rightarrow> Throws (err\<lparr>caller := Some ''git.listBranches''\<rparr>)
      | Returns x \<Rightarrow> Returns x)"

definition listCommits_run :: "ref list \<Rightarrow> nat \<Rightarrow> 'p repo call_args \<Rightarrow> walk_state outcome" where
  "listCommits_run finish n a =
     (case default_gitdir a of
        Inl err \<Rightarrow> Throws err
      | Inr gd \<Rightarrow> rethrow (listCommits_try finish n (fs a) gd))"

text \<open>
  \<^verbatim>\<open>listCommits\<close> itself: \<^verbatim>\<open>finish\<close> is the empty list (line 52), and \<^verbatim>\<open>visited\<close> is
  what is returned (line 105); \<^const>\<open>map_outcome\<close> applies a function to a returned value.
\<close>

definition listCommits_from :: "ref list \<Rightarrow> nat \<Rightarrow> 'p repo call_args \<Rightarrow> (oid \<rightharpoonup> node) outcome" where
  "listCommits_from finish n a = map_outcome visited (listCommits_run finish n a)"

definition listCommits :: "nat \<Rightarrow> 'p repo call_args \<Rightarrow> (oid \<rightharpoonup> node) outcome" where
  "listCommits n a = listCommits_from [] n a"

section \<open>The same program with the effects of its collaborators\<close>








text \<open>
  What a call answers: its result and, for \<^verbatim>\<open>readObject\<close>, the cache it leaves. The
  store, the shallow file and the references are unchanged when no answer of a
  collaborator depends on the state of the world in which it is called.
\<close>

definition answer :: "'a \<times> 'c \<times> 'w \<Rightarrow> 'a \<times> 'c" where
  "answer t = (fst t, fst (snd t))"



section \<open>Notions the properties are stated with\<close>

text \<open>
  The parents that \<^const>\<open>walk\<close> traverses at an object: the parent list of a commit
  that is not in the shallow set; nothing for a tag, for another object, for an object
  that cannot be read, and for a shallow commit.
\<close>

definition parents_of :: "'p repo \<Rightarrow> oid set \<Rightarrow> oid \<Rightarrow> oid list" where
  "parents_of r shallows oid =
     (case readObject r oid of
        Inl err \<Rightarrow> []
      | Inr (type, object) \<Rightarrow>
          if type = Commit \<and> oid \<notin> shallows then commit_parent r object else [])"

text \<open>
  Dereferencing \<open>k\<close> annotated tags in a row, starting at \<open>oid\<close>: the tags passed, and
  the object id that the last of them names.
\<close>

fun deref_tags :: "'p repo \<Rightarrow> nat \<Rightarrow> oid \<Rightarrow> (oid list \<times> oid) option" where
  "deref_tags r 0 oid = Some ([], oid)"
| "deref_tags r (Suc k) oid =
     (case readObject r oid of
        Inl err \<Rightarrow> None
      | Inr (type, object) \<Rightarrow>
          if type = Tag then
            (case deref_tags r k (tag_object r object) of
               None \<Rightarrow> None
             | Some (tags, target) \<Rightarrow> Some (oid # tags, target))
          else None)"

text \<open>Reachability from \<open>s\<close> along parent edges that do not leave a shallow commit.\<close>

inductive reachable :: "'p repo \<Rightarrow> oid set \<Rightarrow> oid \<Rightarrow> oid \<Rightarrow> bool" for r shallows s where
  start: "reachable r shallows s s"
| parent: "reachable r shallows s h \<Longrightarrow> p \<in> set (parents_of r shallows h) \<Longrightarrow>
     reachable r shallows s p"

code_pred reachable .

text \<open>
  An object id is expanded in a map when the parents that the walk traverses at the
  object it leads to, through any number of annotated tags, are keys of the map. The
  invariant of the walk: every key outside \<open>X\<close> (the starting hash that is being
  walked) is expanded.
\<close>

definition expanded :: "'p repo \<Rightarrow> oid set \<Rightarrow> oid \<Rightarrow> (oid \<rightharpoonup> node) \<Rightarrow> bool" where
  "expanded r sh h v \<longleftrightarrow>
     (\<forall>j tags x. deref_tags r j h = Some (tags, x) \<longrightarrow> set (parents_of r sh x) \<subseteq> dom v)"

definition closed_except :: "'p repo \<Rightarrow> oid set \<Rightarrow> oid set \<Rightarrow> (oid \<rightharpoonup> node) \<Rightarrow> bool" where
  "closed_except r sh X v \<longleftrightarrow>
     (\<forall>k \<in> dom v - X. \<forall>j tags x. deref_tags r j k = Some (tags, x) \<longrightarrow>
        set (parents_of r sh x) \<subseteq> dom v)"

text \<open>
  An object id leads to a commit when some number of annotated tags lies between it and
  a commit object. The second invariant of the walk: every key outside \<open>X\<close> leads to
  a commit.
\<close>

definition leads_to_commit :: "'p repo \<Rightarrow> oid \<Rightarrow> bool" where
  "leads_to_commit r h \<longleftrightarrow>
     (\<exists>j tags x p. deref_tags r j h = Some (tags, x) \<and> readObject r x = Inr (Commit, p))"

definition checked_except :: "'p repo \<Rightarrow> oid set \<Rightarrow> (oid \<rightharpoonup> node) \<Rightarrow> bool" where
  "checked_except r X v \<longleftrightarrow> (\<forall>k \<in> dom v - X. leads_to_commit r k)"

text \<open>
  Monotone growth of \<^verbatim>\<open>visited\<close>: every key stays, and its list of children is only
  extended at the end.
\<close>

definition grows :: "(oid \<rightharpoonup> node) \<Rightarrow> (oid \<rightharpoonup> node) \<Rightarrow> bool" where
  "grows v v' \<longleftrightarrow>
     (\<forall>k nd. v k = Some nd \<longrightarrow> (\<exists>nd'. v' k = Some nd' \<and> prefix (children nd) (children nd')))"

text \<open>
  An acyclic store: a rank that falls along every tag and parent edge. Content hashes
  make every real store acyclic; the comment at lines 67 to 69 relies on it.
\<close>

definition ranked :: "'p repo \<Rightarrow> (oid \<Rightarrow> nat) \<Rightarrow> bool" where
  "ranked r rank \<longleftrightarrow>
     (\<forall>oid type object. readObject r oid = Inr (type, object) \<longrightarrow>
        (type = Tag \<longrightarrow> rank (tag_object r object) < rank oid) \<and>
        (type = Commit \<longrightarrow> (\<forall>p \<in> set (commit_parent r object). rank p < rank oid)))"

text \<open>
  The children recorded for an object id (none when it is not a key), and the number of
  parent edges from \<open>c\<close> to \<open>p\<close> that a sequence of reads accounts for: every read of
  \<open>c\<close> traverses the parent list of \<open>c\<close> once.
\<close>

definition children_of :: "(oid \<rightharpoonup> node) \<Rightarrow> oid \<Rightarrow> oid list" where
  "children_of v p = (case v p of None \<Rightarrow> [] | Some nd \<Rightarrow> children nd)"

definition edges_from :: "'p repo \<Rightarrow> oid set \<Rightarrow> oid list \<Rightarrow> oid \<Rightarrow> oid \<Rightarrow> nat" where
  "edges_from r sh rs p c = count_list rs c * count_list (parents_of r sh c) p"

text \<open>The object ids that the commits of a sequence of reads name as parents.\<close>

definition named_by :: "'p repo \<Rightarrow> oid set \<Rightarrow> oid list \<Rightarrow> oid set" where
  "named_by r sh rs = (\<Union>c \<in> set rs. set (parents_of r sh c))"

text \<open>A store without annotated tags.\<close>

definition tag_free :: "'p repo \<Rightarrow> bool" where
  "tag_free r \<longleftrightarrow> (\<forall>h t q. readObject r h = Inr (t, q) \<longrightarrow> t \<noteq> Tag)"

text \<open>The \<^verbatim>\<open>children\<close> recorded for a key in a returned map, if the key is there.\<close>

definition children_at :: "oid \<Rightarrow> (oid \<rightharpoonup> node) outcome \<Rightarrow> oid list option outcome" where
  "children_at k res = map_outcome (\<lambda>v. map_option children (v k)) res"

section \<open>Example repositories\<close>

text \<open>
  A repository given by its branches (name and hash), its shallow file and its objects;
  the payload of an object is the list of hashes in its headers (the parents of a commit,
  the target of a tag). What is not listed is not found.
\<close>

definition not_found :: exn where
  "not_found = \<lparr>kind = CollaboratorError ''NotFoundError'', caller = None\<rparr>"

definition store_repo ::
  "(ref \<times> oid) list \<Rightarrow> oid list \<Rightarrow> (oid \<times> objtype \<times> oid list) list \<Rightarrow> (oid list) repo" where
  "store_repo refs sh objs =
     \<lparr>listBranches = Inr (map fst refs),
      shallow_read = Inr (set sh),
      resolve = (\<lambda>ref. case map_of refs ref of None \<Rightarrow> Inl not_found | Some h \<Rightarrow> Inr h),
      readObject = (\<lambda>h. case map_of objs h of None \<Rightarrow> Inl not_found | Some x \<Rightarrow> Inr x),
      tag_object = (\<lambda>p. case p of [] \<Rightarrow> [] | x # _ \<Rightarrow> x),
      commit_parent = (\<lambda>p. p)\<rparr>"

definition call :: "(oid list) repo \<Rightarrow> (oid list) repo call_args" where
  "call r = \<lparr>fs = Some r, dir = None, gitdir = Some ''.git''\<rparr>"



text \<open>
  A linear history \<open>A \<leftarrow> B \<leftarrow> C\<close> with two branches: \<open>develop\<close> at \<open>C\<close> and \<open>master\<close>
  at its parent \<open>B\<close>.
\<close>

definition history_linear :: "(oid list) repo" where
  "history_linear = store_repo [(''develop'', ''C''), (''master'', ''B'')] []
     [(''A'', Commit, []), (''B'', Commit, [''A'']), (''C'', Commit, [''B''])]"

text \<open>
  A merge: \<open>M\<close> has the parents \<open>A\<close> and \<open>B\<close>, which share the parent \<open>R\<close>; one
  branch, at \<open>M\<close>. The rank of a commit is its distance from the root.
\<close>

definition history_merge :: "(oid list) repo" where
  "history_merge = store_repo [(''main'', ''M'')] []
     [(''R'', Commit, []), (''A'', Commit, [''R'']), (''B'', Commit, [''R'']),
      (''M'', Commit, [''A'', ''B''])]"

definition rank_merge :: "oid \<Rightarrow> nat" where
  "rank_merge h = (if h = ''M'' then 2 else if h = ''R'' then 0 else 1)"

text \<open>
  An annotated tag \<open>T\<close> of commit \<open>A\<close>, whose parent is \<open>P\<close>; the only reference
  resolves to the tag, or to the commit itself.
\<close>

definition history_tagged :: "(oid list) repo" where
  "history_tagged = store_repo [(''v1'', ''T'')] []
     [(''P'', Commit, []), (''A'', Commit, [''P'']), (''T'', Tag, [''A''])]"

definition history_untagged :: "(oid list) repo" where
  "history_untagged = store_repo [(''v1'', ''A'')] []
     [(''P'', Commit, []), (''A'', Commit, [''P'']), (''T'', Tag, [''A''])]"

text \<open>A shallow commit \<open>S\<close> whose payload names the parent \<open>P\<close>.\<close>

definition history_shallow :: "(oid list) repo" where
  "history_shallow = store_repo [(''master'', ''S'')] [''S'']
     [(''P'', Commit, []), (''S'', Commit, [''P''])]"

text \<open>An annotated tag \<open>T\<close> of a tree \<open>X\<close>, and a reference to the tree itself.\<close>

definition tag_of_tree :: "(oid list) repo" where
  "tag_of_tree = store_repo [(''v1'', ''T'')] [] [(''X'', Tree, []), (''T'', Tag, [''X''])]"

definition ref_to_tree :: "(oid list) repo" where
  "ref_to_tree = store_repo [(''master'', ''X'')] [] [(''X'', Tree, [])]"

text \<open>
  Calls that fail: no \<^verbatim>\<open>fs\<close>; neither \<^verbatim>\<open>dir\<close> nor \<^verbatim>\<open>gitdir\<close>; a branch that does
  not resolve; a branch whose object is not in the store.
\<close>

definition no_fs :: "(oid list) repo call_args" where
  "no_fs = \<lparr>fs = None, dir = Some ''/repo'', gitdir = None\<rparr>"

definition no_dir :: "(oid list) repo \<Rightarrow> (oid list) repo call_args" where
  "no_dir r = \<lparr>fs = Some r, dir = None, gitdir = None\<rparr>"

definition ref_dangling :: "(oid list) repo" where
  "ref_dangling = (store_repo [] [] [])\<lparr>listBranches := Inr [''gone'']\<rparr>"

definition object_absent :: "(oid list) repo" where
  "object_absent = store_repo [(''master'', ''X'')] [] []"

section \<open>The steps of the walk\<close>

lemma record_edge_eq:
  "record_edge p c v =
     v(p \<mapsto> \<lparr>children = (case v p of None \<Rightarrow> [] | Some nd \<Rightarrow> children nd) @ [c]\<rparr>)"
  by (auto simp: record_edge_def Let_def split: option.splits)

lemma dom_record_edge: "dom (record_edge p c v) = insert p (dom v)"
  by (simp add: record_edge_eq)

lemma record_edge_other: "k \<noteq> p \<Longrightarrow> record_edge p c v k = v k"
  by (simp add: record_edge_eq)

lemma walk_Suc_Inl:
  "readObject r h = Inl e \<Longrightarrow> walk r sh (Suc n) h st = Throws e"
  by simp

lemma walk_Suc_Tag:
  "readObject r h = Inr (Tag, p) \<Longrightarrow>
   walk r sh (Suc n) h st = walk r sh n (tag_object r p) (st\<lparr>reads := reads st @ [h]\<rparr>)"
  by simp

lemma walk_Suc_Commit:
  "readObject r h = Inr (Commit, p) \<Longrightarrow> h \<notin> sh \<Longrightarrow>
   walk r sh (Suc n) h st =
     for_parents r sh n h (commit_parent r p) (st\<lparr>reads := reads st @ [h]\<rparr>)"
  by simp

lemma walk_Suc_shallow:
  "readObject r h = Inr (Commit, p) \<Longrightarrow> h \<in> sh \<Longrightarrow>
   walk r sh (Suc n) h st = Returns (st\<lparr>reads := reads st @ [h]\<rparr>)"
  by simp

lemma walk_Suc_other:
  "readObject r h = Inr (t, p) \<Longrightarrow> t \<noteq> Tag \<Longrightarrow> t \<noteq> Commit \<Longrightarrow>
   walk r sh (Suc n) h st = Throws \<lparr>kind = ObjectTypeError h t Commit, caller = None\<rparr>"
  by simp

lemma read_cases:
  obtains (fails) e where "readObject r h = Inl e"
  | (tag) p where "readObject r h = Inr (Tag, p)"
  | (commit) p where "readObject r h = Inr (Commit, p)" "h \<notin> sh"
  | (shallow) p where "readObject r h = Inr (Commit, p)" "h \<in> sh"
  | (other) t p where "readObject r h = Inr (t, p)" "t \<noteq> Tag" "t \<noteq> Commit"
proof (cases "readObject r h")
  case (Inl e)
  then show ?thesis by (rule fails)
next
  case (Inr b)
  obtain t p where b: "b = (t, p)" by (cases b)
  show ?thesis
  proof (cases "t = Tag")
    case True
    with Inr b show ?thesis by (auto intro: tag)
  next
    case nt: False
    show ?thesis
    proof (cases "t = Commit")
      case True
      with Inr b show ?thesis by (cases "h \<in> sh") (auto intro: commit shallow)
    next
      case False
      with nt Inr b show ?thesis by (auto intro: other)
    qed
  qed
qed

lemma for_parents_skip:
  "p \<in> dom (visited st) \<Longrightarrow>
   for_parents r sh n h (p # ps) st =
     for_parents r sh n h ps (st\<lparr>visited := record_edge p h (visited st)\<rparr>)"
  by simp

lemma for_parents_enter:
  "p \<notin> dom (visited st) \<Longrightarrow>
   for_parents r sh n h (p # ps) st =
     (case walk r sh n p st of
        Diverges \<Rightarrow> Diverges
      | Throws err \<Rightarrow> Throws err
      | Returns st1 \<Rightarrow>
          for_parents r sh n h ps (st1\<lparr>visited := record_edge p h (visited st1)\<rparr>))"
  by simp

section \<open>More recursion budget does not change a result\<close>

lemma for_parents_fuel:
  assumes W: "\<And>h st. walk r sh n h st \<noteq> Diverges \<Longrightarrow> walk r sh (Suc n) h st = walk r sh n h st"
  shows "for_parents r sh n h ps st \<noteq> Diverges \<Longrightarrow>
         for_parents r sh (Suc n) h ps st = for_parents r sh n h ps st"
proof (induction ps arbitrary: st)
  case Nil
  show ?case by simp
next
  case (Cons p ps)
  show ?case
  proof (cases "p \<in> dom (visited st)")
    case True
    with Cons show ?thesis by (simp add: for_parents_skip del: for_parents.simps)
  next
    case False
    with Cons.prems have nd: "walk r sh n p st \<noteq> Diverges"
      by (auto simp: for_parents_enter)
    then obtain x where x: "walk r sh n p st = x" "x \<noteq> Diverges" by simp
    from W[OF nd] have eq: "walk r sh (Suc n) p st = walk r sh n p st" .
    show ?thesis
    proof (cases "walk r sh n p st")
      case Diverges
      with nd show ?thesis by simp
    next
      case (Throws e)
      with False eq show ?thesis by (simp add: for_parents_enter)
    next
      case (Returns st1)
      with False Cons.prems have "for_parents r sh n h ps (st1\<lparr>visited := record_edge p h (visited st1)\<rparr>) \<noteq> Diverges"
        by (simp add: for_parents_enter)
      from Cons.IH[OF this] Returns False eq show ?thesis by (simp add: for_parents_enter)
    qed
  qed
qed

lemma walk_fuel_Suc:
  "walk r sh n h st \<noteq> Diverges \<Longrightarrow> walk r sh (Suc n) h st = walk r sh n h st"
proof (induction n arbitrary: h st)
  case 0
  then show ?case by simp
next
  case (Suc n)
  show ?case
  proof (cases rule: read_cases[where r=r and h=h and sh=sh])
    case (fails e)
    then show ?thesis by (simp add: walk_Suc_Inl del: walk.simps)
  next
    case (tag p)
    with Suc.prems have "walk r sh n (tag_object r p) (st\<lparr>reads := reads st @ [h]\<rparr>) \<noteq> Diverges"
      by (simp add: walk_Suc_Tag del: walk.simps)
    from Suc.IH[OF this] tag show ?thesis by (simp add: walk_Suc_Tag del: walk.simps)
  next
    case (commit p)
    with Suc.prems have "for_parents r sh n h (commit_parent r p) (st\<lparr>reads := reads st @ [h]\<rparr>) \<noteq> Diverges"
      by (simp add: walk_Suc_Commit del: walk.simps)
    from for_parents_fuel[OF Suc.IH this] commit show ?thesis by (simp add: walk_Suc_Commit del: walk.simps)
  next
    case (shallow p)
    then show ?thesis by (simp add: walk_Suc_shallow del: walk.simps)
  next
    case (other t p)
    then show ?thesis by (simp add: walk_Suc_other del: walk.simps)
  qed
qed

lemma walk_fuel: "walk r sh n h st \<noteq> Diverges \<Longrightarrow> walk r sh (n + k) h st = walk r sh n h st"
proof (induction k)
  case 0
  show ?case by simp
next
  case (Suc k)
  then have "walk r sh (n + k) h st \<noteq> Diverges" by simp
  from walk_fuel_Suc[OF this] Suc show ?case by simp
qed

lemma walk_all_fuel:
  "walk_all r sh n hs st \<noteq> Diverges \<Longrightarrow> walk_all r sh (n + k) hs st = walk_all r sh n hs st"
proof (induction hs arbitrary: st)
  case Nil
  show ?case by simp
next
  case (Cons h hs)
  let ?st = "st\<lparr>visited := (visited st)(h \<mapsto> \<lparr>children = []\<rparr>)\<rparr>"
  from Cons.prems have nd: "walk r sh n h ?st \<noteq> Diverges" by (auto split: outcome.splits)
  note eq = walk_fuel[OF nd, of k]
  show ?case
  proof (cases "walk r sh n h ?st")
    case Diverges
    with nd show ?thesis by simp
  next
    case (Throws e)
    with eq show ?thesis by simp
  next
    case (Returns st1)
    with Cons.prems have "walk_all r sh n hs st1 \<noteq> Diverges" by simp
    from Cons.IH[OF this] Returns eq show ?thesis by simp
  qed
qed

lemma rethrow_Diverges: "rethrow x = Diverges \<longleftrightarrow> x = Diverges"
  by (simp add: rethrow_def split: outcome.splits)

lemma map_outcome_Diverges: "map_outcome f x = Diverges \<longleftrightarrow> x = Diverges"
  by (cases x) simp_all

lemma map_outcome_Returns: "map_outcome f x = Returns v \<longleftrightarrow> (\<exists>y. x = Returns y \<and> v = f y)"
  by (cases x) auto

lemma map_outcome_Throws: "map_outcome f x = Throws e \<longleftrightarrow> x = Throws e"
  by (cases x) auto

lemma listCommits_try_fuel:
  "listCommits_try finish n client gd \<noteq> Diverges \<Longrightarrow>
   listCommits_try finish (n + k) client gd = listCommits_try finish n client gd"
  by (auto simp: listCommits_try_def Let_def walk_all_fuel split: sum.splits option.splits)

lemma listCommits_from_fuel:
  "listCommits_from finish n a \<noteq> Diverges \<Longrightarrow>
   listCommits_from finish (n + k) a = listCommits_from finish n a"
  by (cases "default_gitdir a")
    (simp_all add: listCommits_from_def listCommits_run_def map_outcome_Diverges rethrow_Diverges
      listCommits_try_fuel)

section \<open>The map only grows during a walk\<close>

lemma grows_refl: "grows v v"
  by (simp add: grows_def)

lemma grows_trans: "grows v1 v2 \<Longrightarrow> grows v2 v3 \<Longrightarrow> grows v1 v3"
  unfolding grows_def by (meson prefix_order.trans)

lemma grows_dom: "grows v v' \<Longrightarrow> dom v \<subseteq> dom v'"
  unfolding grows_def by auto

lemma grows_record_edge: "grows v (record_edge p c v)"
  unfolding grows_def by (auto simp: record_edge_eq)

lemma for_parents_grows:
  assumes W: "\<And>h st st'. walk r sh n h st = Returns st' \<Longrightarrow> grows (visited st) (visited st')"
  shows "for_parents r sh n h ps st = Returns st' \<Longrightarrow> grows (visited st) (visited st')"
proof (induction ps arbitrary: st)
  case Nil
  then show ?case by (simp add: grows_refl)
next
  case (Cons p ps)
  show ?case
  proof (cases "p \<in> dom (visited st)")
    case True
    with Cons.prems have
      "for_parents r sh n h ps (st\<lparr>visited := record_edge p h (visited st)\<rparr>) = Returns st'"
      by (simp add: for_parents_skip del: for_parents.simps)
    from Cons.IH[OF this] have "grows (record_edge p h (visited st)) (visited st')" by simp
    with grows_record_edge show ?thesis by (rule grows_trans)
  next
    case False
    with Cons.prems obtain st1 where
      w: "walk r sh n p st = Returns st1" and
      f: "for_parents r sh n h ps (st1\<lparr>visited := record_edge p h (visited st1)\<rparr>) = Returns st'"
      by (auto simp: for_parents_enter simp del: for_parents.simps split: outcome.splits)
    from Cons.IH[OF f] have "grows (record_edge p h (visited st1)) (visited st')" by simp
    with grows_record_edge have "grows (visited st1) (visited st')" by (rule grows_trans)
    with W[OF w] show ?thesis by (rule grows_trans)
  qed
qed

lemma walk_grows:
  "walk r sh n h st = Returns st' \<Longrightarrow> grows (visited st) (visited st')"
proof (induction n arbitrary: h st st')
  case 0
  then show ?case by simp
next
  case (Suc n)
  let ?st = "st\<lparr>reads := reads st @ [h]\<rparr>"
  show ?case
  proof (cases rule: read_cases[where r=r and h=h and sh=sh])
    case (fails e)
    with Suc.prems show ?thesis by (simp add: walk_Suc_Inl del: walk.simps)
  next
    case (tag p)
    with Suc.prems have "walk r sh n (tag_object r p) ?st = Returns st'"
      by (simp add: walk_Suc_Tag del: walk.simps)
    from Suc.IH[OF this] show ?thesis by simp
  next
    case (commit p)
    with Suc.prems have "for_parents r sh n h (commit_parent r p) ?st = Returns st'"
      by (simp add: walk_Suc_Commit del: walk.simps)
    moreover have "\<And>h st st'. walk r sh n h st = Returns st' \<Longrightarrow> grows (visited st) (visited st')"
      by (rule Suc.IH)
    ultimately have "grows (visited ?st) (visited st')" by (rule for_parents_grows[rotated])
    then show ?thesis by simp
  next
    case (shallow p)
    with Suc.prems show ?thesis by (auto simp: walk_Suc_shallow grows_refl simp del: walk.simps)
  next
    case (other t p)
    with Suc.prems show ?thesis by (simp add: walk_Suc_other del: walk.simps)
  qed
qed

lemma walk_all_dom:
  "walk_all r sh n hs st = Returns st' \<Longrightarrow> dom (visited st) \<union> set hs \<subseteq> dom (visited st')"
proof (induction hs arbitrary: st)
  case Nil
  then show ?case by simp
next
  case (Cons h hs)
  let ?st = "st\<lparr>visited := (visited st)(h \<mapsto> \<lparr>children = []\<rparr>)\<rparr>"
  from Cons.prems obtain st1 where
    w: "walk r sh n h ?st = Returns st1" and a: "walk_all r sh n hs st1 = Returns st'"
    by (auto split: outcome.splits)
  from grows_dom[OF walk_grows[OF w]] have "insert h (dom (visited st)) \<subseteq> dom (visited st1)"
    by simp
  moreover from Cons.IH[OF a] have "dom (visited st1) \<union> set hs \<subseteq> dom (visited st')" .
  ultimately show ?case by (simp only: set_simps) blast
qed

section \<open>The keys are closed under parents\<close>

lemma parents_of_tag: "readObject r h = Inr (Tag, p) \<Longrightarrow> parents_of r sh h = []"
  by (simp add: parents_of_def)

lemma parents_of_commit:
  "readObject r h = Inr (Commit, p) \<Longrightarrow> h \<notin> sh \<Longrightarrow> parents_of r sh h = commit_parent r p"
  by (simp add: parents_of_def)

lemma parents_of_shallow: "h \<in> sh \<Longrightarrow> parents_of r sh h = []"
  by (simp add: parents_of_def split: sum.splits)

lemma closed_except_alt:
  "closed_except r sh X v \<longleftrightarrow> (\<forall>k \<in> dom v - X. expanded r sh k v)"
  by (simp add: closed_except_def expanded_def)

lemma expanded_mono: "expanded r sh h v \<Longrightarrow> dom v \<subseteq> dom v' \<Longrightarrow> expanded r sh h v'"
  unfolding expanded_def by blast

lemma deref_tags_Suc_Tag:
  "readObject r h = Inr (Tag, p) \<Longrightarrow>
   deref_tags r (Suc j) h = Some (tags, x) \<longleftrightarrow>
     (\<exists>ts. tags = h # ts \<and> deref_tags r j (tag_object r p) = Some (ts, x))"
  by (auto split: option.splits)

lemma deref_tags_Suc_not_Tag:
  "readObject r h = Inr (t, p) \<Longrightarrow> t \<noteq> Tag \<Longrightarrow> deref_tags r (Suc j) h = None"
  by simp

lemma expanded_tag:
  assumes "readObject r h = Inr (Tag, p)" and "expanded r sh (tag_object r p) v"
  shows "expanded r sh h v"
  unfolding expanded_def
proof (intro allI impI)
  fix j tags x assume d: "deref_tags r j h = Some (tags, x)"
  show "set (parents_of r sh x) \<subseteq> dom v"
  proof (cases j)
    case 0
    with d assms(1) show ?thesis by (simp add: parents_of_tag)
  next
    case (Suc j')
    with d assms(1) obtain ts where "deref_tags r j' (tag_object r p) = Some (ts, x)"
      by (auto simp: deref_tags_Suc_Tag simp del: deref_tags.simps)
    with assms(2) show ?thesis unfolding expanded_def by blast
  qed
qed

lemma expanded_not_tag:
  assumes "readObject r h = Inr (t, p)" and "t \<noteq> Tag" and "set (parents_of r sh h) \<subseteq> dom v"
  shows "expanded r sh h v"
  unfolding expanded_def
proof (intro allI impI)
  fix j tags x assume d: "deref_tags r j h = Some (tags, x)"
  show "set (parents_of r sh x) \<subseteq> dom v"
  proof (cases j)
    case 0
    with d assms(3) show ?thesis by simp
  next
    case (Suc j')
    with d assms(1,2) show ?thesis by (simp add: deref_tags_Suc_not_Tag del: deref_tags.simps)
  qed
qed

lemma for_parents_closed:
  assumes W: "\<And>h st st'. walk r sh n h st = Returns st' \<Longrightarrow> closed_except r sh X (visited st) \<Longrightarrow>
      closed_except r sh X (visited st') \<and> expanded r sh h (visited st')"
    and G: "\<And>h st st'. walk r sh n h st = Returns st' \<Longrightarrow> grows (visited st) (visited st')"
  shows "for_parents r sh n h ps st = Returns st' \<Longrightarrow> closed_except r sh X (visited st) \<Longrightarrow>
      closed_except r sh X (visited st') \<and> set ps \<subseteq> dom (visited st')"
proof (induction ps arbitrary: st)
  case Nil
  then show ?case by simp
next
  case (Cons p ps)
  have step: "closed_except r sh X (visited st') \<and> set (p # ps) \<subseteq> dom (visited st')"
    if f: "for_parents r sh n h ps (st1\<lparr>visited := record_edge p h (visited st1)\<rparr>) = Returns st'"
    and c: "closed_except r sh X (visited st1)"
    and pp: "p \<in> dom (visited st1) \<or> expanded r sh p (visited st1)" for st1
  proof -
    let ?st2 = "st1\<lparr>visited := record_edge p h (visited st1)\<rparr>"
    have "expanded r sh k (visited ?st2)" if "k \<in> dom (visited ?st2) - X" for k
    proof (cases "k \<in> dom (visited st1)")
      case True
      with that c have "expanded r sh k (visited st1)" by (simp add: closed_except_alt)
      then show ?thesis by (rule expanded_mono) (auto simp: dom_record_edge)
    next
      case False
      with that have "k = p" by (simp add: dom_record_edge)
      with False pp have "expanded r sh k (visited st1)" by simp
      then show ?thesis by (rule expanded_mono) (auto simp: dom_record_edge)
    qed
    then have c2: "closed_except r sh X (visited ?st2)" by (simp add: closed_except_alt)
    from Cons.IH[OF f c2] have 1: "closed_except r sh X (visited st')" and 2: "set ps \<subseteq> dom (visited st')"
      by simp_all
    have "grows (visited ?st2) (visited st')"
      using f by (rule for_parents_grows[rotated]) (rule G)
    from grows_dom[OF this] have "p \<in> dom (visited st')"
      by (simp add: dom_record_edge)
    with 1 2 show ?thesis by simp
  qed
  show ?case
  proof (cases "p \<in> dom (visited st)")
    case True
    with Cons.prems(1) have
      "for_parents r sh n h ps (st\<lparr>visited := record_edge p h (visited st)\<rparr>) = Returns st'"
      by (simp add: for_parents_skip del: for_parents.simps)
    from step[OF this Cons.prems(2)] True show ?thesis by simp
  next
    case False
    with Cons.prems(1) obtain st1 where
      w: "walk r sh n p st = Returns st1" and
      f: "for_parents r sh n h ps (st1\<lparr>visited := record_edge p h (visited st1)\<rparr>) = Returns st'"
      by (auto simp: for_parents_enter simp del: for_parents.simps split: outcome.splits)
    from W[OF w Cons.prems(2)] step[OF f] show ?thesis by simp
  qed
qed

lemma walk_closed:
  "walk r sh n h st = Returns st' \<Longrightarrow> closed_except r sh X (visited st) \<Longrightarrow>
   closed_except r sh X (visited st') \<and> expanded r sh h (visited st')"
proof (induction n arbitrary: h st st')
  case 0
  then show ?case by simp
next
  case (Suc n)
  let ?st = "st\<lparr>reads := reads st @ [h]\<rparr>"
  have c: "closed_except r sh X (visited ?st)" using Suc.prems(2) by simp
  show ?case
  proof (cases rule: read_cases[where r=r and h=h and sh=sh])
    case (fails e)
    with Suc.prems show ?thesis by (simp add: walk_Suc_Inl del: walk.simps)
  next
    case (tag p)
    with Suc.prems have "walk r sh n (tag_object r p) ?st = Returns st'"
      by (simp add: walk_Suc_Tag del: walk.simps)
    from Suc.IH[OF this c] tag show ?thesis by (auto intro: expanded_tag)
  next
    case (commit p)
    with Suc.prems have f: "for_parents r sh n h (commit_parent r p) ?st = Returns st'"
      by (simp add: walk_Suc_Commit del: walk.simps)
    have "closed_except r sh X (visited st') \<and> set (commit_parent r p) \<subseteq> dom (visited st')"
      using f c
    proof (rule for_parents_closed[rotated 2])
      show "closed_except r sh X (visited s') \<and> expanded r sh k (visited s')"
        if "walk r sh n k s = Returns s'" "closed_except r sh X (visited s)" for k s s'
        using that by (rule Suc.IH)
      show "grows (visited s) (visited s')" if "walk r sh n k s = Returns s'" for k s s'
        using that by (rule walk_grows)
    qed
    with commit show ?thesis by (auto intro!: expanded_not_tag simp: parents_of_commit)
  next
    case (shallow p)
    with Suc.prems c show ?thesis
      by (auto simp: walk_Suc_shallow parents_of_shallow simp del: walk.simps intro!: expanded_not_tag)
  next
    case (other t p)
    with Suc.prems show ?thesis by (simp add: walk_Suc_other del: walk.simps)
  qed
qed

lemma walk_all_closed:
  "walk_all r sh n hs st = Returns st' \<Longrightarrow> closed_except r sh {} (visited st) \<Longrightarrow>
   closed_except r sh {} (visited st')"
proof (induction hs arbitrary: st)
  case Nil
  then show ?case by simp
next
  case (Cons h hs)
  let ?st = "st\<lparr>visited := (visited st)(h \<mapsto> \<lparr>children = []\<rparr>)\<rparr>"
  from Cons.prems(1) obtain st1 where
    w: "walk r sh n h ?st = Returns st1" and a: "walk_all r sh n hs st1 = Returns st'"
    by (auto split: outcome.splits)
  have "expanded r sh k (visited ?st)" if "k \<in> dom (visited ?st) - {h}" for k
  proof -
    from that Cons.prems(2) have "expanded r sh k (visited st)"
      by (simp add: closed_except_alt)
    then show ?thesis by (rule expanded_mono) auto
  qed
  then have "closed_except r sh {h} (visited ?st)" by (simp add: closed_except_alt)
  from walk_closed[OF w this] have "closed_except r sh {} (visited st1)"
    unfolding closed_except_alt by auto
  from Cons.IH[OF a this] show ?case .
qed

lemma closed_parents:
  "closed_except r sh {} v \<Longrightarrow> k \<in> dom v \<Longrightarrow> deref_tags r j k = Some (tags, x) \<Longrightarrow>
   set (parents_of r sh x) \<subseteq> dom v"
  unfolding closed_except_def by blast

lemma closed_reachable:
  assumes "reachable r sh s c" and "closed_except r sh {} v" and "s \<in> dom v"
  shows "c \<in> dom v"
  using assms
proof (induction rule: reachable.induct)
  case start
  then show ?case by simp
next
  case (parent h p)
  then have "h \<in> dom v" by simp
  from closed_parents[OF parent.prems(1) this, of 0 "[]" h] parent.hyps(2) show ?case by auto
qed

section \<open>Every key leads to a commit\<close>

lemma leads_to_commit_here: "readObject r h = Inr (Commit, p) \<Longrightarrow> leads_to_commit r h"
  unfolding leads_to_commit_def by (rule exI[of _ 0]) simp

lemma leads_to_commit_tag:
  assumes "readObject r h = Inr (Tag, p)" and "leads_to_commit r (tag_object r p)"
  shows "leads_to_commit r h"
proof -
  from assms(2) obtain j tags x q where "deref_tags r j (tag_object r p) = Some (tags, x)"
    and x: "readObject r x = Inr (Commit, q)"
    unfolding leads_to_commit_def by blast
  with assms(1) have "deref_tags r (Suc j) h = Some (h # tags, x)"
    by (simp add: deref_tags_Suc_Tag del: deref_tags.simps)
  with x show ?thesis unfolding leads_to_commit_def by blast
qed

lemma not_leads_to_commit:
  "deref_tags r j h = Some (tags, x) \<Longrightarrow> readObject r x = Inr (t, p) \<Longrightarrow>
   t \<noteq> Tag \<Longrightarrow> t \<noteq> Commit \<Longrightarrow> \<not> leads_to_commit r h"
proof (induction j arbitrary: h tags)
  case 0
  then have hx: "h = x" by simp
  show ?case
  proof
    assume "leads_to_commit r h"
    then obtain i ts y q where d: "deref_tags r i x = Some (ts, y)"
      and y: "readObject r y = Inr (Commit, q)"
      unfolding leads_to_commit_def hx by blast
    show False
    proof (cases i)
      case 0
      with d y "0.prems"(2,4) show ?thesis by simp
    next
      case (Suc i')
      with d "0.prems"(2,3) show ?thesis by (simp add: deref_tags_Suc_not_Tag del: deref_tags.simps)
    qed
  qed
next
  case (Suc j)
  from Suc.prems(1) obtain q ts where rd: "readObject r h = Inr (Tag, q)"
    and d: "deref_tags r j (tag_object r q) = Some (ts, x)"
    by (auto split: sum.splits if_splits option.splits)
  from Suc.IH[OF d Suc.prems(2-4)] have n: "\<not> leads_to_commit r (tag_object r q)" .
  show ?case
  proof
    assume "leads_to_commit r h"
    then obtain i ts' y q' where d': "deref_tags r i h = Some (ts', y)"
      and y: "readObject r y = Inr (Commit, q')"
      unfolding leads_to_commit_def by blast
    show False
    proof (cases i)
      case 0
      with d' y rd show ?thesis by simp
    next
      case (Suc i')
      with d' rd obtain ts'' where "deref_tags r i' (tag_object r q) = Some (ts'', y)"
        by (auto simp: deref_tags_Suc_Tag simp del: deref_tags.simps)
      with y n show ?thesis unfolding leads_to_commit_def by blast
    qed
  qed
qed

lemma walk_leads_to_commit:
  "walk r sh n h st = Returns st' \<Longrightarrow> leads_to_commit r h"
proof (induction n arbitrary: h st)
  case 0
  then show ?case by simp
next
  case (Suc n)
  show ?case
  proof (cases rule: read_cases[where r=r and h=h and sh=sh])
    case (fails e)
    with Suc.prems show ?thesis by (simp add: walk_Suc_Inl del: walk.simps)
  next
    case (tag p)
    with Suc.prems have "walk r sh n (tag_object r p) (st\<lparr>reads := reads st @ [h]\<rparr>) = Returns st'"
      by (simp add: walk_Suc_Tag del: walk.simps)
    from leads_to_commit_tag[OF tag Suc.IH[OF this]] show ?thesis .
  next
    case (commit p)
    then show ?thesis by (simp add: leads_to_commit_here)
  next
    case (shallow p)
    then show ?thesis by (simp add: leads_to_commit_here)
  next
    case (other t p)
    with Suc.prems show ?thesis by (simp add: walk_Suc_other del: walk.simps)
  qed
qed

lemma for_parents_checked:
  assumes W: "\<And>h st st'. walk r sh n h st = Returns st' \<Longrightarrow> checked_except r X (visited st) \<Longrightarrow>
      checked_except r X (visited st')"
  shows "for_parents r sh n h ps st = Returns st' \<Longrightarrow> checked_except r X (visited st) \<Longrightarrow>
      checked_except r X (visited st')"
proof (induction ps arbitrary: st)
  case Nil
  then show ?case by simp
next
  case (Cons p ps)
  show ?case
  proof (cases "p \<in> dom (visited st)")
    case True
    with Cons.prems(1) have f:
      "for_parents r sh n h ps (st\<lparr>visited := record_edge p h (visited st)\<rparr>) = Returns st'"
      by (simp add: for_parents_skip del: for_parents.simps)
    from True Cons.prems(2) have "checked_except r X (visited (st\<lparr>visited := record_edge p h (visited st)\<rparr>))"
      unfolding checked_except_def by (auto simp: dom_record_edge)
    from Cons.IH[OF f this] show ?thesis .
  next
    case False
    with Cons.prems(1) obtain st1 where
      w: "walk r sh n p st = Returns st1" and
      f: "for_parents r sh n h ps (st1\<lparr>visited := record_edge p h (visited st1)\<rparr>) = Returns st'"
      by (auto simp: for_parents_enter simp del: for_parents.simps split: outcome.splits)
    from W[OF w Cons.prems(2)] walk_leads_to_commit[OF w]
    have "checked_except r X (visited (st1\<lparr>visited := record_edge p h (visited st1)\<rparr>))"
      unfolding checked_except_def by (auto simp: dom_record_edge)
    from Cons.IH[OF f this] show ?thesis .
  qed
qed

lemma walk_checked:
  "walk r sh n h st = Returns st' \<Longrightarrow> checked_except r X (visited st) \<Longrightarrow>
   checked_except r X (visited st')"
proof (induction n arbitrary: h st st')
  case 0
  then show ?case by simp
next
  case (Suc n)
  let ?st = "st\<lparr>reads := reads st @ [h]\<rparr>"
  have c: "checked_except r X (visited ?st)" using Suc.prems(2) by simp
  show ?case
  proof (cases rule: read_cases[where r=r and h=h and sh=sh])
    case (fails e)
    with Suc.prems show ?thesis by (simp add: walk_Suc_Inl del: walk.simps)
  next
    case (tag p)
    with Suc.prems have "walk r sh n (tag_object r p) ?st = Returns st'"
      by (simp add: walk_Suc_Tag del: walk.simps)
    from Suc.IH[OF this c] show ?thesis .
  next
    case (commit p)
    with Suc.prems have f: "for_parents r sh n h (commit_parent r p) ?st = Returns st'"
      by (simp add: walk_Suc_Commit del: walk.simps)
    show ?thesis using f c
    proof (rule for_parents_checked[rotated])
      show "checked_except r X (visited s')"
        if "walk r sh n k s = Returns s'" "checked_except r X (visited s)" for k s s'
        using that by (rule Suc.IH)
    qed
  next
    case (shallow p)
    with Suc.prems c show ?thesis by (auto simp: walk_Suc_shallow simp del: walk.simps)
  next
    case (other t p)
    with Suc.prems show ?thesis by (simp add: walk_Suc_other del: walk.simps)
  qed
qed

lemma walk_all_checked:
  "walk_all r sh n hs st = Returns st' \<Longrightarrow> checked_except r {} (visited st) \<Longrightarrow>
   checked_except r {} (visited st')"
proof (induction hs arbitrary: st)
  case Nil
  then show ?case by simp
next
  case (Cons h hs)
  let ?st = "st\<lparr>visited := (visited st)(h \<mapsto> \<lparr>children = []\<rparr>)\<rparr>"
  from Cons.prems(1) obtain st1 where
    w: "walk r sh n h ?st = Returns st1" and a: "walk_all r sh n hs st1 = Returns st'"
    by (auto split: outcome.splits)
  have "checked_except r {h} (visited ?st)"
    using Cons.prems(2) unfolding checked_except_def by auto
  from walk_checked[OF w this] have c1: "checked_except r {h} (visited st1)" .
  from walk_leads_to_commit[OF w] c1 have "checked_except r {} (visited st1)"
    unfolding checked_except_def by auto
  from Cons.IH[OF a this] show ?case .
qed

section \<open>The steps of \<^verbatim>\<open>listCommits\<close>\<close>

lemma set_set_add: "set (set_add xs x) = insert x (set xs)"
  by (auto simp: set_add_def)

lemma resolve_start_set:
  "resolve_start r refs acc = Inr hs \<Longrightarrow>
   set hs = set acc \<union> {h. \<exists>ref \<in> set refs. resolve r ref = Inr h}"
proof (induction refs arbitrary: acc)
  case Nil
  then show ?case by simp
next
  case (Cons ref refs)
  from Cons.prems obtain h where h: "resolve r ref = Inr h"
    and rest: "resolve_start r refs (set_add acc h) = Inr hs"
    by (auto split: sum.splits)
  from Cons.IH[OF rest] h show ?case by (auto simp: set_set_add)
qed

lemma listCommits_run_Returns:
  assumes "listCommits_run finish n a = Returns st"
  obtains r start sh hs where "fs a = Some r" "listBranches r = Inr start"
    "shallow_read r = Inr sh" "resolve_start r start [] = Inr hs"
    "walk_all r sh n hs \<lparr>visited = Map.empty, reads = []\<rparr> = Returns st"
  using assms
  by (auto simp: listCommits_run_def rethrow_def listCommits_try_def Let_def
      split: outcome.splits sum.splits option.splits)

lemma listCommits_run_walk:
  assumes "fs a = Some r" "default_gitdir a = Inr g" "listBranches r = Inr start"
    "shallow_read r = Inr sh" "resolve_start r start [] = Inr hs"
  shows "listCommits_run finish n a =
     rethrow (walk_all r sh n hs \<lparr>visited = Map.empty, reads = []\<rparr>)"
  using assms by (simp add: listCommits_run_def listCommits_try_def assertParameter_def)

lemma listCommits_run_eq:
  assumes "fs a = Some r" "gitdir a = Some g" "listBranches r = Inr start"
    "shallow_read r = Inr sh" "resolve_start r start [] = Inr hs"
  shows "listCommits_run finish n a =
     rethrow (walk_all r sh n hs \<lparr>visited = Map.empty, reads = []\<rparr>)"
  using assms(1) _ assms(3-5)
  by (rule listCommits_run_walk) (simp add: default_gitdir_def assms(2))

section \<open>The walk returns or throws on an acyclic store\<close>

lemma ranked_tag: "ranked r rank \<Longrightarrow> readObject r h = Inr (Tag, p) \<Longrightarrow> rank (tag_object r p) < rank h"
  unfolding ranked_def by blast

lemma ranked_commit:
  "ranked r rank \<Longrightarrow> readObject r h = Inr (Commit, p) \<Longrightarrow> q \<in> set (commit_parent r p) \<Longrightarrow>
   rank q < rank h"
  unfolding ranked_def by blast

lemma for_parents_terminates:
  assumes W: "\<And>h st. rank h < n \<Longrightarrow> walk r sh n h st \<noteq> Diverges"
  shows "\<forall>p \<in> set ps. rank p < n \<Longrightarrow> for_parents r sh n c ps st \<noteq> Diverges"
proof (induction ps arbitrary: st)
  case Nil
  show ?case by simp
next
  case (Cons p ps)
  then have rest: "for_parents r sh n c ps s \<noteq> Diverges" for s by simp
  show ?case
  proof (cases "p \<in> dom (visited st)")
    case True
    with rest show ?thesis by (simp add: for_parents_skip del: for_parents.simps)
  next
    case False
    from Cons.prems have "walk r sh n p st \<noteq> Diverges" by (simp add: W)
    with False rest show ?thesis
      by (cases "walk r sh n p st") (simp_all add: for_parents_enter del: for_parents.simps)
  qed
qed

lemma walk_terminates:
  "ranked r rank \<Longrightarrow> rank h < n \<Longrightarrow> walk r sh n h st \<noteq> Diverges"
proof (induction n arbitrary: h st)
  case 0
  then show ?case by simp
next
  case (Suc n)
  let ?st = "st\<lparr>reads := reads st @ [h]\<rparr>"
  show ?case
  proof (cases rule: read_cases[where r=r and h=h and sh=sh])
    case (fails e)
    then show ?thesis by (simp add: walk_Suc_Inl del: walk.simps)
  next
    case (tag p)
    from ranked_tag[OF Suc.prems(1) tag] Suc.prems(2) have "rank (tag_object r p) < n" by simp
    from Suc.IH[OF Suc.prems(1) this] tag show ?thesis by (simp add: walk_Suc_Tag del: walk.simps)
  next
    case (commit p)
    have "\<forall>q \<in> set (commit_parent r p). rank q < n"
      using ranked_commit[OF Suc.prems(1) commit(1)] Suc.prems(2) by fastforce
    then have "for_parents r sh n h (commit_parent r p) ?st \<noteq> Diverges"
      by (rule for_parents_terminates[rotated]) (rule Suc.IH[OF Suc.prems(1)])
    with commit show ?thesis by (simp add: walk_Suc_Commit del: walk.simps)
  next
    case (shallow p)
    then show ?thesis by (simp add: walk_Suc_shallow del: walk.simps)
  next
    case (other t p)
    then show ?thesis by (simp add: walk_Suc_other del: walk.simps)
  qed
qed

lemma walk_all_terminates:
  "ranked r rank \<Longrightarrow> \<forall>h \<in> set hs. rank h < n \<Longrightarrow> walk_all r sh n hs st \<noteq> Diverges"
proof (induction hs arbitrary: st)
  case Nil
  show ?case by simp
next
  case (Cons h hs)
  let ?st = "st\<lparr>visited := (visited st)(h \<mapsto> \<lparr>children = []\<rparr>)\<rparr>"
  from Cons.prems have "walk r sh n h ?st \<noteq> Diverges" by (simp add: walk_terminates)
  moreover from Cons have "walk_all r sh n hs s \<noteq> Diverges" for s by simp
  ultimately show ?case by (cases "walk r sh n h ?st") simp_all
qed

lemma listCommits_terminates:
  assumes "\<And>r. fs a = Some r \<Longrightarrow> ranked r rank"
  shows "\<exists>n. listCommits n a \<noteq> Diverges"
proof (cases "listCommits 0 a = Diverges")
  case False
  then show ?thesis by blast
next
  case True
  then obtain r g start sh hs where r: "fs a = Some r" and g: "default_gitdir a = Inr g"
    and "listBranches r = Inr start" "shallow_read r = Inr sh" "resolve_start r start [] = Inr hs"
    by (auto simp: listCommits_def listCommits_from_def listCommits_run_def listCommits_try_def
        map_outcome_Diverges rethrow_Diverges assertParameter_def Let_def
        split: sum.splits option.splits)
  then have eq: "listCommits_run [] n a = rethrow (walk_all r sh n hs \<lparr>visited = Map.empty, reads = []\<rparr>)" for n
    by (auto intro: listCommits_run_walk)
  let ?n = "Suc (Max (rank ` set hs))"
  have "\<forall>h \<in> set hs. rank h < ?n" by (simp add: less_Suc_eq_le)
  from walk_all_terminates[OF assms[OF r] this]
  have "listCommits ?n a \<noteq> Diverges"
    by (simp add: listCommits_def listCommits_from_def eq map_outcome_Diverges rethrow_Diverges)
  then show ?thesis by blast
qed

section \<open>Annotated tags\<close>

lemma walk_deref:
  "deref_tags r k T = Some (tags, A) \<Longrightarrow>
   walk r sh (k + n) T st = walk r sh n A (st\<lparr>reads := reads st @ tags\<rparr>)"
proof (induction k arbitrary: T tags st)
  case 0
  then show ?case by simp
next
  case (Suc k)
  from Suc.prems obtain p ts where
    rd: "readObject r T = Inr (Tag, p)" and
    d: "deref_tags r k (tag_object r p) = Some (ts, A)" and tags: "tags = T # ts"
    by (auto split: sum.splits if_splits option.splits)
  have "walk r sh (Suc k + n) T st = walk r sh (k + n) (tag_object r p) (st\<lparr>reads := reads st @ [T]\<rparr>)"
    using rd by (simp add: walk_Suc_Tag del: walk.simps)
  also have "\<dots> = walk r sh n A (st\<lparr>reads := reads st @ [T] @ ts\<rparr>)"
    using Suc.IH[OF d, of "st\<lparr>reads := reads st @ [T]\<rparr>"] by simp
  finally show ?case by (simp add: tags)
qed

section \<open>What \<^verbatim>\<open>listCommits\<close> does with its collaborators\<close>

lemma resolve_start_single:
  "resolve r ref = Inr h \<Longrightarrow> resolve_start r [ref] [] = Inr [h]"
  by (simp add: set_add_def)

lemma listCommits_Returns:
  assumes "listCommits_from finish n a = Returns v"
  obtains st where "listCommits_run finish n a = Returns st" "v = visited st"
  using assms by (cases "listCommits_run finish n a") (auto simp: listCommits_from_def)

lemma listCommits_start_key:
  assumes "listCommits_from finish n a = Returns v"
    and "fs a = Some r" and "listBranches r = Inr start"
    and "ref \<in> set start" and "resolve r ref = Inr s"
  shows "s \<in> dom v"
proof -
  from assms(1) obtain st where run: "listCommits_run finish n a = Returns st"
    and v: "v = visited st"
    by (rule listCommits_Returns)
  from run obtain r' start' sh hs where
    "fs a = Some r'" "listBranches r' = Inr start'"
    and rs: "resolve_start r' start' [] = Inr hs"
    and w: "walk_all r' sh n hs \<lparr>visited = Map.empty, reads = []\<rparr> = Returns st"
    by (rule listCommits_run_Returns)
  with assms(2,3) have eq: "r' = r" "start' = start" by simp_all
  from resolve_start_set[OF rs] assms(4,5) have "s \<in> set hs" unfolding eq by auto
  with walk_all_dom[OF w] show ?thesis by (auto simp: v)
qed

lemma listCommits_invariants:
  assumes "listCommits_from finish n a = Returns v"
    and "fs a = Some r" and "shallow_read r = Inr sh"
  shows "closed_except r sh {} v" and "checked_except r {} v"
proof -
  from assms(1) obtain st where run: "listCommits_run finish n a = Returns st"
    and v: "v = visited st"
    by (rule listCommits_Returns)
  from run obtain r' start' sh' hs where
    "fs a = Some r'" "listBranches r' = Inr start'" "shallow_read r' = Inr sh'"
    and w: "walk_all r' sh' n hs \<lparr>visited = Map.empty, reads = []\<rparr> = Returns st"
    by (rule listCommits_run_Returns)
  with assms(2,3) have eq: "r' = r" "sh' = sh" by simp_all
  have "closed_except r sh {} (visited \<lparr>visited = Map.empty, reads = []\<rparr>)"
    by (simp add: closed_except_def)
  from walk_all_closed[OF w[unfolded eq] this] show "closed_except r sh {} v" by (simp add: v)
  have "checked_except r {} (visited \<lparr>visited = Map.empty, reads = []\<rparr>)"
    by (simp add: checked_except_def)
  from walk_all_checked[OF w[unfolded eq] this] show "checked_except r {} v" by (simp add: v)
qed

lemmas eval_defs = listCommits_def listCommits_from_def listCommits_run_def listCommits_try_def
  rethrow_def assertParameter_def set_add_def record_edge_def children_at_def
  default_gitdir_def join_def store_repo_def call_def not_found_def eval_nat_numeral Let_def

section \<open>The children that a walk records\<close>

text \<open>
  A walk appends to the children of \<open>p\<close> one entry \<open>c\<close> for every read of \<open>c\<close> and
  every occurrence of \<open>p\<close> in the parent list of \<open>c\<close>, and nothing else.
\<close>

lemma children_of_record_edge:
  "children_of (record_edge p c v) q = (if q = p then children_of v p @ [c] else children_of v q)"
  by (simp add: children_of_def record_edge_eq split: option.splits)

lemma edges_from_Nil: "edges_from r sh [] p c = 0"
  by (simp add: edges_from_def)

lemma edges_from_append:
  "edges_from r sh (xs @ ys) p c = edges_from r sh xs p c + edges_from r sh ys p c"
  by (simp add: edges_from_def algebra_simps)

lemma edges_from_single:
  "edges_from r sh [h] p c = (if c = h then count_list (parents_of r sh h) p else 0)"
  by (simp add: edges_from_def)

lemma for_parents_children:
  assumes W: "\<And>h st st'. walk r sh n h st = Returns st' \<Longrightarrow>
      \<exists>new. reads st' = reads st @ new \<and>
        (\<forall>p c. count_list (children_of (visited st') p) c =
           count_list (children_of (visited st) p) c + edges_from r sh new p c)"
  shows "for_parents r sh n h ps st = Returns st' \<Longrightarrow>
      \<exists>new. reads st' = reads st @ new \<and>
        (\<forall>p c. count_list (children_of (visited st') p) c =
           count_list (children_of (visited st) p) c + edges_from r sh new p c +
           (if c = h then count_list ps p else 0))"
proof (induction ps arbitrary: st)
  case Nil
  then show ?case by (auto simp: edges_from_Nil intro!: exI[of _ "[]"])
next
  case (Cons q ps)
  have step: ?case
    if f: "for_parents r sh n h ps (st1\<lparr>visited := record_edge q h (visited st1)\<rparr>) = Returns st'"
    and w: "reads st1 = reads st @ new1"
      "\<forall>p c. count_list (children_of (visited st1) p) c =
           count_list (children_of (visited st) p) c + edges_from r sh new1 p c" for st1 new1
  proof -
    from Cons.IH[OF f] obtain new2 where
      r2: "reads st' = reads st1 @ new2" and
      c2: "\<forall>p c. count_list (children_of (visited st') p) c =
           count_list (children_of (record_edge q h (visited st1)) p) c + edges_from r sh new2 p c +
           (if c = h then count_list ps p else 0)"
      by auto
    have "reads st' = reads st @ (new1 @ new2)" using r2 w(1) by simp
    moreover have "count_list (children_of (visited st') p) c =
           count_list (children_of (visited st) p) c + edges_from r sh (new1 @ new2) p c +
           (if c = h then count_list (q # ps) p else 0)" for p c
      using c2[rule_format, of p c]
      by (cases "p = q") (simp_all add: children_of_record_edge edges_from_append w(2)[rule_format])
    ultimately show ?thesis by blast
  qed
  show ?case
  proof (cases "q \<in> dom (visited st)")
    case True
    with Cons.prems have
      "for_parents r sh n h ps (st\<lparr>visited := record_edge q h (visited st)\<rparr>) = Returns st'"
      by (simp add: for_parents_skip del: for_parents.simps)
    then show ?thesis by (rule step[where ?new1.0 = "[]"]) (simp_all add: edges_from_Nil)
  next
    case False
    with Cons.prems obtain st1 where
      w: "walk r sh n q st = Returns st1" and
      f: "for_parents r sh n h ps (st1\<lparr>visited := record_edge q h (visited st1)\<rparr>) = Returns st'"
      by (auto simp: for_parents_enter simp del: for_parents.simps split: outcome.splits)
    from W[OF w] obtain new1 where "reads st1 = reads st @ new1"
      "\<forall>p c. count_list (children_of (visited st1) p) c =
           count_list (children_of (visited st) p) c + edges_from r sh new1 p c"
      by blast
    with f show ?thesis by (rule step)
  qed
qed

lemma walk_children:
  "walk r sh n h st = Returns st' \<Longrightarrow>
   \<exists>new. reads st' = reads st @ h # new \<and>
     (\<forall>p c. count_list (children_of (visited st') p) c =
        count_list (children_of (visited st) p) c + edges_from r sh (h # new) p c)"
proof (induction n arbitrary: h st st')
  case 0
  then show ?case by simp
next
  case (Suc n)
  let ?st = "st\<lparr>reads := reads st @ [h]\<rparr>"
  have W: "\<exists>new. reads s' = reads s @ new \<and>
        (\<forall>p c. count_list (children_of (visited s') p) c =
           count_list (children_of (visited s) p) c + edges_from r sh new p c)"
    if "walk r sh n k s = Returns s'" for k s s'
    using Suc.IH[OF that] by blast
  show ?case
  proof (cases rule: read_cases[where r=r and h=h and sh=sh])
    case (fails e)
    with Suc.prems show ?thesis by (simp add: walk_Suc_Inl del: walk.simps)
  next
    case (tag q)
    with Suc.prems have "walk r sh n (tag_object r q) ?st = Returns st'"
      by (simp add: walk_Suc_Tag del: walk.simps)
    from W[OF this] obtain new where "reads st' = reads ?st @ new"
      and c: "\<forall>p c. count_list (children_of (visited st') p) c =
           count_list (children_of (visited ?st) p) c + edges_from r sh new p c"
      by blast
    then have "reads st' = reads st @ h # new" by simp
    moreover have "edges_from r sh (h # new) p c = edges_from r sh new p c" for p c
      using edges_from_append[of r sh "[h]" new p c] tag
      by (simp add: edges_from_single parents_of_tag)
    ultimately show ?thesis using c by auto
  next
    case (commit q)
    with Suc.prems have f: "for_parents r sh n h (commit_parent r q) ?st = Returns st'"
      by (simp add: walk_Suc_Commit del: walk.simps)
    have "\<exists>new. reads st' = reads ?st @ new \<and>
        (\<forall>p c. count_list (children_of (visited st') p) c =
           count_list (children_of (visited ?st) p) c + edges_from r sh new p c +
           (if c = h then count_list (commit_parent r q) p else 0))"
      using f by (rule for_parents_children[rotated]) (rule W)
    then obtain new where "reads st' = reads ?st @ new"
      and c: "\<forall>p c. count_list (children_of (visited st') p) c =
           count_list (children_of (visited ?st) p) c + edges_from r sh new p c +
           (if c = h then count_list (commit_parent r q) p else 0)"
      by blast
    then have "reads st' = reads st @ h # new" by simp
    moreover have "edges_from r sh (h # new) p c =
        edges_from r sh new p c + (if c = h then count_list (commit_parent r q) p else 0)" for p c
      using edges_from_append[of r sh "[h]" new p c] commit
      by (simp add: edges_from_single parents_of_commit)
    ultimately show ?thesis using c by auto
  next
    case (shallow q)
    with Suc.prems have "st' = ?st" by (simp add: walk_Suc_shallow del: walk.simps)
    moreover have "edges_from r sh [h] p c = 0" for p c
      using shallow by (simp add: edges_from_single parents_of_shallow)
    ultimately show ?thesis by (auto intro!: exI[of _ "[]"])
  next
    case (other t q)
    with Suc.prems show ?thesis by (simp add: walk_Suc_other del: walk.simps)
  qed
qed

lemma walk_reads: "walk r sh n h st = Returns st' \<Longrightarrow> \<exists>new. reads st' = reads st @ h # new"
  using walk_children by blast

lemma walk_all_reads:
  "walk_all r sh n hs st = Returns st' \<Longrightarrow> \<exists>new. reads st' = reads st @ new"
proof (induction hs arbitrary: st)
  case Nil
  then show ?case by simp
next
  case (Cons h hs)
  let ?st = "st\<lparr>visited := (visited st)(h \<mapsto> \<lparr>children = []\<rparr>)\<rparr>"
  from Cons.prems obtain st1 where
    w: "walk r sh n h ?st = Returns st1" and a: "walk_all r sh n hs st1 = Returns st'"
    by (auto split: outcome.splits)
  from walk_reads[OF w] Cons.IH[OF a] show ?case by auto
qed

lemma for_parents_keys_read:
  assumes W: "\<And>h st st'. walk r sh n h st = Returns st' \<Longrightarrow>
      dom (visited st) \<subseteq> set (reads st) \<union> X \<Longrightarrow> dom (visited st') \<subseteq> set (reads st') \<union> X"
  shows "for_parents r sh n h ps st = Returns st' \<Longrightarrow>
      dom (visited st) \<subseteq> set (reads st) \<union> X \<Longrightarrow> dom (visited st') \<subseteq> set (reads st') \<union> X"
proof (induction ps arbitrary: st)
  case Nil
  then show ?case by simp
next
  case (Cons q ps)
  show ?case
  proof (cases "q \<in> dom (visited st)")
    case True
    with Cons.prems(1) have f:
      "for_parents r sh n h ps (st\<lparr>visited := record_edge q h (visited st)\<rparr>) = Returns st'"
      by (simp add: for_parents_skip del: for_parents.simps)
    from True Cons.prems(2) show ?thesis
      by (intro Cons.IH[OF f]) (auto simp: dom_record_edge)
  next
    case False
    with Cons.prems(1) obtain st1 where
      w: "walk r sh n q st = Returns st1" and
      f: "for_parents r sh n h ps (st1\<lparr>visited := record_edge q h (visited st1)\<rparr>) = Returns st'"
      by (auto simp: for_parents_enter simp del: for_parents.simps split: outcome.splits)
    from walk_reads[OF w] have "q \<in> set (reads st1)" by auto
    with W[OF w Cons.prems(2)] show ?thesis
      by (intro Cons.IH[OF f]) (auto simp: dom_record_edge)
  qed
qed

lemma walk_keys_read:
  "walk r sh n h st = Returns st' \<Longrightarrow> dom (visited st) \<subseteq> set (reads st) \<union> X \<Longrightarrow>
   dom (visited st') \<subseteq> set (reads st') \<union> X"
proof (induction n arbitrary: h st st')
  case 0
  then show ?case by simp
next
  case (Suc n)
  let ?st = "st\<lparr>reads := reads st @ [h]\<rparr>"
  have c: "dom (visited ?st) \<subseteq> set (reads ?st) \<union> X" using Suc.prems(2) by auto
  show ?case
  proof (cases rule: read_cases[where r=r and h=h and sh=sh])
    case (fails e)
    with Suc.prems show ?thesis by (simp add: walk_Suc_Inl del: walk.simps)
  next
    case (tag p)
    with Suc.prems have "walk r sh n (tag_object r p) ?st = Returns st'"
      by (simp add: walk_Suc_Tag del: walk.simps)
    from Suc.IH[OF this c] show ?thesis .
  next
    case (commit p)
    with Suc.prems have f: "for_parents r sh n h (commit_parent r p) ?st = Returns st'"
      by (simp add: walk_Suc_Commit del: walk.simps)
    show ?thesis using f c
    proof (rule for_parents_keys_read[rotated])
      show "dom (visited s') \<subseteq> set (reads s') \<union> X"
        if "walk r sh n k s = Returns s'" "dom (visited s) \<subseteq> set (reads s) \<union> X" for k s s'
        using that by (rule Suc.IH)
    qed
  next
    case (shallow p)
    with Suc.prems c show ?thesis by (auto simp: walk_Suc_shallow simp del: walk.simps)
  next
    case (other t p)
    with Suc.prems show ?thesis by (simp add: walk_Suc_other del: walk.simps)
  qed
qed

lemma walk_all_children:
  assumes "walk_all r sh n hs st = Returns st'" and "distinct (reads st')"
    and "dom (visited st) \<subseteq> set (reads st)"
    and "\<forall>p c. count_list (children_of (visited st) p) c = edges_from r sh (reads st) p c"
  shows "\<forall>p c. count_list (children_of (visited st') p) c = edges_from r sh (reads st') p c"
  using assms
proof (induction hs arbitrary: st)
  case Nil
  then show ?case by simp
next
  case (Cons h hs)
  let ?st = "st\<lparr>visited := (visited st)(h \<mapsto> \<lparr>children = []\<rparr>)\<rparr>"
  from Cons.prems(1) obtain st1 where
    w: "walk r sh n h ?st = Returns st1" and a: "walk_all r sh n hs st1 = Returns st'"
    by (auto split: outcome.splits)
  from walk_children[OF w] obtain new where
    r1: "reads st1 = reads st @ h # new" and
    c1: "\<forall>p c. count_list (children_of (visited st1) p) c =
        count_list (children_of (visited ?st) p) c + edges_from r sh (h # new) p c"
    by auto
  from walk_all_reads[OF a] obtain more where "reads st' = reads st1 @ more" by blast
  with Cons.prems(2) r1 have "h \<notin> set (reads st)" by auto
  with Cons.prems(3) have "h \<notin> dom (visited st)" by blast
  then have same: "children_of ((visited st)(h \<mapsto> \<lparr>children = []\<rparr>)) p = children_of (visited st) p" for p
    by (auto simp: children_of_def split: option.splits)
  have k1: "dom (visited st1) \<subseteq> set (reads st1)"
    using walk_keys_read[OF w, of "{h}"] Cons.prems(3) r1 by auto
  have "\<forall>p c. count_list (children_of (visited st1) p) c = edges_from r sh (reads st1) p c"
    using c1 Cons.prems(4) by (simp add: same r1 edges_from_append)
  from Cons.IH[OF a Cons.prems(2) k1 this] show ?case .
qed

lemma count_list_distinct: "distinct xs \<longleftrightarrow> (\<forall>x. count_list xs x \<le> 1)"
proof (induction xs)
  case Nil
  show ?case by simp
next
  case (Cons a xs)
  show ?case
  proof
    assume d: "distinct (a # xs)"
    then have "count_list xs a = 0" by (simp add: count_list_0_iff)
    with d Cons show "\<forall>x. count_list (a # xs) x \<le> 1" by simp
  next
    assume c: "\<forall>x. count_list (a # xs) x \<le> 1"
    then have "count_list xs a = 0" using c[rule_format, of a] by simp
    then have "a \<notin> set xs" by (simp add: count_list_0_iff)
    moreover have "\<forall>x. count_list xs x \<le> 1"
    proof
      fix x from c[rule_format, of x] show "count_list xs x \<le> 1" by (simp split: if_splits)
    qed
    ultimately show "distinct (a # xs)" using Cons by simp
  qed
qed

lemma children_exact:
  assumes "listCommits_run finish n a = Returns st" and "distinct (reads st)"
    and "fs a = Some r" and "shallow_read r = Inr sh"
  shows "count_list (children_of (visited st) p) c = edges_from r sh (reads st) p c"
proof -
  from assms(1) obtain r' start' sh' hs where
    "fs a = Some r'" "listBranches r' = Inr start'" "shallow_read r' = Inr sh'"
    and w: "walk_all r' sh' n hs \<lparr>visited = Map.empty, reads = []\<rparr> = Returns st"
    by (rule listCommits_run_Returns)
  with assms(3,4) have eq: "r' = r" "sh' = sh" by simp_all
  have "\<forall>p c. count_list (children_of (visited st) p) c = edges_from r sh (reads st) p c"
    by (rule walk_all_children[OF w[unfolded eq] assms(2)])
      (simp_all add: children_of_def edges_from_Nil)
  then show ?thesis by blast
qed

section \<open>A single starting hash in an acyclic store without tags\<close>

text \<open>
  Here no object is read twice, and the children of every key are exactly the commits
  read that name it as a parent.
\<close>

lemma for_parents_distinct:
  assumes W: "\<And>k s s' S. walk r sh n k s = Returns s' \<Longrightarrow> distinct (reads s) \<Longrightarrow>
      k \<notin> set (reads s) \<Longrightarrow> set (reads s) \<subseteq> dom (visited s) \<union> S \<Longrightarrow>
      (\<forall>x \<in> S. rank k < rank x) \<Longrightarrow>
      distinct (reads s') \<and> set (reads s') \<subseteq> dom (visited s') \<union> S \<union> {k}"
  shows "for_parents r sh n h ps st = Returns st' \<Longrightarrow> distinct (reads st) \<Longrightarrow>
      set (reads st) \<subseteq> dom (visited st) \<union> S \<Longrightarrow>
      (\<forall>x \<in> S. \<forall>q \<in> set ps. rank q < (rank x :: nat)) \<Longrightarrow>
      distinct (reads st') \<and> set (reads st') \<subseteq> dom (visited st') \<union> S"
proof (induction ps arbitrary: st)
  case Nil
  then show ?case by simp
next
  case (Cons q ps)
  from Cons.prems(4) have rest: "\<forall>x \<in> S. \<forall>q \<in> set ps. rank q < rank x" by simp
  show ?case
  proof (cases "q \<in> dom (visited st)")
    case True
    with Cons.prems(1) have f:
      "for_parents r sh n h ps (st\<lparr>visited := record_edge q h (visited st)\<rparr>) = Returns st'"
      by (simp add: for_parents_skip del: for_parents.simps)
    from Cons.prems(2,3) rest show ?thesis
      by (intro Cons.IH[OF f]) (auto simp: dom_record_edge)
  next
    case False
    with Cons.prems(1) obtain st1 where
      w: "walk r sh n q st = Returns st1" and
      f: "for_parents r sh n h ps (st1\<lparr>visited := record_edge q h (visited st1)\<rparr>) = Returns st'"
      by (auto simp: for_parents_enter simp del: for_parents.simps split: outcome.splits)
    from Cons.prems(4) have low: "\<forall>x \<in> S. rank q < rank x" by simp
    then have "q \<notin> S" by auto
    with False Cons.prems(3) have "q \<notin> set (reads st)" by auto
    from W[OF w Cons.prems(2) this Cons.prems(3) low]
    have "distinct (reads st1)" "set (reads st1) \<subseteq> dom (visited st1) \<union> S \<union> {q}" by simp_all
    with rest show ?thesis
      by (intro Cons.IH[OF f]) (auto simp: dom_record_edge)
  qed
qed

lemma walk_distinct:
  assumes "ranked r rank" and "tag_free r"
  shows "walk r sh n h st = Returns st' \<Longrightarrow> distinct (reads st) \<Longrightarrow>
      h \<notin> set (reads st) \<Longrightarrow> set (reads st) \<subseteq> dom (visited st) \<union> S \<Longrightarrow>
      (\<forall>x \<in> S. rank h < rank x) \<Longrightarrow>
      distinct (reads st') \<and> set (reads st') \<subseteq> dom (visited st') \<union> S \<union> {h}"
proof (induction n arbitrary: h st st' S)
  case 0
  then show ?case by simp
next
  case (Suc n)
  let ?st = "st\<lparr>reads := reads st @ [h]\<rparr>"
  have d: "distinct (reads ?st)" using Suc.prems(2,3) by simp
  have s: "set (reads ?st) \<subseteq> dom (visited ?st) \<union> (S \<union> {h})" using Suc.prems(4) by auto
  show ?case
  proof (cases rule: read_cases[where r=r and h=h and sh=sh])
    case (fails e)
    with Suc.prems show ?thesis by (simp add: walk_Suc_Inl del: walk.simps)
  next
    case (tag p)
    with assms(2) show ?thesis by (auto simp: tag_free_def)
  next
    case (commit p)
    with Suc.prems have f: "for_parents r sh n h (commit_parent r p) ?st = Returns st'"
      by (simp add: walk_Suc_Commit del: walk.simps)
    have low: "\<forall>x \<in> S \<union> {h}. \<forall>q \<in> set (commit_parent r p). rank q < rank x"
      using ranked_commit[OF assms(1) commit(1)] Suc.prems(5) by (auto intro: less_trans)
    have "distinct (reads st') \<and> set (reads st') \<subseteq> dom (visited st') \<union> (S \<union> {h})"
      using f d s low
    proof (rule for_parents_distinct[rotated])
      show "distinct (reads s') \<and> set (reads s') \<subseteq> dom (visited s') \<union> S' \<union> {k}"
        if "walk r sh n k s = Returns s'" "distinct (reads s)" "k \<notin> set (reads s)"
          "set (reads s) \<subseteq> dom (visited s) \<union> S'" "\<forall>x \<in> S'. rank k < rank x" for k s s' S'
        using that by (rule Suc.IH)
    qed
    then show ?thesis by auto
  next
    case (shallow p)
    with Suc.prems have "st' = ?st" by (simp add: walk_Suc_shallow del: walk.simps)
    with d s show ?thesis by auto
  next
    case (other t p)
    with Suc.prems show ?thesis by (simp add: walk_Suc_other del: walk.simps)
  qed
qed

lemma single_start_exact:
  assumes "ranked r rank" and "tag_free r"
    and "fs a = Some r" and "shallow_read r = Inr sh" and "listBranches r = Inr [ref]"
    and "listCommits_run finish n a = Returns st"
  shows "distinct (reads st) \<and>
    count_list (children_of (visited st) p) c =
      (if c \<in> set (reads st) then count_list (parents_of r sh c) p else 0)"
proof -
  from assms(6) obtain r' start' sh' hs where
    "fs a = Some r'" "listBranches r' = Inr start'" "shallow_read r' = Inr sh'"
    and rs: "resolve_start r' start' [] = Inr hs"
    and w: "walk_all r' sh' n hs \<lparr>visited = Map.empty, reads = []\<rparr> = Returns st"
    by (rule listCommits_run_Returns)
  with assms(3-5) have eq: "r' = r" "sh' = sh" "start' = [ref]" by simp_all
  from rs obtain s where hs: "hs = [s]"
    unfolding eq by (auto simp: set_add_def split: sum.splits)
  let ?st = "\<lparr>visited = [s \<mapsto> \<lparr>children = []\<rparr>], reads = []\<rparr>"
  from w have ws: "walk r sh n s ?st = Returns st"
    unfolding eq hs by (auto split: outcome.splits)
  have d: "distinct (reads st)"
    using walk_distinct[OF assms(1,2) ws, of "{}"] by simp
  have "count_list (reads st) c = (if c \<in> set (reads st) then 1 else 0)"
  proof (cases "c \<in> set (reads st)")
    case True
    then have "count_list (reads st) c \<noteq> 0" by (simp add: count_list_0_iff)
    moreover from d have "count_list (reads st) c \<le> 1" by (simp add: count_list_distinct)
    ultimately show ?thesis using True by simp
  next
    case False
    then show ?thesis by (simp add: count_list_0_iff)
  qed
  with children_exact[OF assms(6) d assms(3,4), of p c] d show ?thesis
    by (simp add: edges_from_def)
qed

lemma history_merge_ranked: "ranked history_merge rank_merge"
  by (auto simp: ranked_def history_merge_def store_repo_def rank_merge_def split: if_splits)

lemma history_merge_tag_free: "tag_free history_merge"
  by (auto simp: tag_free_def history_merge_def store_repo_def split: if_splits)

lemma single_start_exact_example:
  "map_outcome reads (listCommits_run [] 3 (call history_merge)) =
     Returns [''M'', ''A'', ''R'', ''B''] \<and>
   children_at ''R'' (listCommits 3 (call history_merge)) = Returns (Some [''A'', ''B'']) \<and>
   children_at ''A'' (listCommits 3 (call history_merge)) = Returns (Some [''M'']) \<and>
   children_at ''B'' (listCommits 3 (call history_merge)) = Returns (Some [''M'']) \<and>
   children_at ''M'' (listCommits 3 (call history_merge)) = Returns (Some [])"
  by (simp add: eval_defs history_merge_def)

section \<open>Where the keys come from\<close>

text \<open>
  Every key of the result is a starting hash or is named as a parent by a commit that
  was read; and the walk of a tag leaves its target among the children of the target's
  parents.
\<close>

lemma named_by_append: "named_by r sh (xs @ ys) = named_by r sh xs \<union> named_by r sh ys"
  by (auto simp: named_by_def)

lemma named_by_mono: "reads st' = reads st @ new \<Longrightarrow> named_by r sh (reads st) \<subseteq> named_by r sh (reads st')"
  by (simp add: named_by_append)

lemma for_parents_keys_named:
  assumes W: "\<And>h st st'. walk r sh n h st = Returns st' \<Longrightarrow>
      dom (visited st) \<subseteq> S \<union> named_by r sh (reads st) \<Longrightarrow>
      dom (visited st') \<subseteq> S \<union> named_by r sh (reads st')"
  shows "for_parents r sh n h ps st = Returns st' \<Longrightarrow> h \<in> set (reads st) \<Longrightarrow>
      set ps \<subseteq> set (parents_of r sh h) \<Longrightarrow>
      dom (visited st) \<subseteq> S \<union> named_by r sh (reads st) \<Longrightarrow>
      dom (visited st') \<subseteq> S \<union> named_by r sh (reads st')"
proof (induction ps arbitrary: st)
  case Nil
  then show ?case by simp
next
  case (Cons q ps)
  from Cons.prems(3) have q: "q \<in> set (parents_of r sh h)" and ps: "set ps \<subseteq> set (parents_of r sh h)"
    by simp_all
  have step: ?case
    if f: "for_parents r sh n h ps (st1\<lparr>visited := record_edge q h (visited st1)\<rparr>) = Returns st'"
    and h1: "h \<in> set (reads st1)"
    and d1: "dom (visited st1) \<subseteq> S \<union> named_by r sh (reads st1)" for st1
  proof -
    from h1 q have "q \<in> named_by r sh (reads st1)" by (auto simp: named_by_def)
    with d1 have "dom (record_edge q h (visited st1)) \<subseteq> S \<union> named_by r sh (reads st1)"
      by (auto simp: dom_record_edge)
    with h1 ps show ?thesis by (intro Cons.IH[OF f]) simp_all
  qed
  show ?case
  proof (cases "q \<in> dom (visited st)")
    case True
    with Cons.prems(1) have
      "for_parents r sh n h ps (st\<lparr>visited := record_edge q h (visited st)\<rparr>) = Returns st'"
      by (simp add: for_parents_skip del: for_parents.simps)
    then show ?thesis using Cons.prems(2,4) by (rule step)
  next
    case False
    with Cons.prems(1) obtain st1 where
      w: "walk r sh n q st = Returns st1" and
      f: "for_parents r sh n h ps (st1\<lparr>visited := record_edge q h (visited st1)\<rparr>) = Returns st'"
      by (auto simp: for_parents_enter simp del: for_parents.simps split: outcome.splits)
    from walk_reads[OF w] Cons.prems(2) have "h \<in> set (reads st1)" by auto
    with f show ?thesis using W[OF w Cons.prems(4)] by (rule step)
  qed
qed

lemma walk_keys_named:
  "walk r sh n h st = Returns st' \<Longrightarrow> dom (visited st) \<subseteq> S \<union> named_by r sh (reads st) \<Longrightarrow>
   dom (visited st') \<subseteq> S \<union> named_by r sh (reads st')"
proof (induction n arbitrary: h st st')
  case 0
  then show ?case by simp
next
  case (Suc n)
  let ?st = "st\<lparr>reads := reads st @ [h]\<rparr>"
  have c: "dom (visited ?st) \<subseteq> S \<union> named_by r sh (reads ?st)"
    using Suc.prems(2) by (auto simp: named_by_append)
  show ?case
  proof (cases rule: read_cases[where r=r and h=h and sh=sh])
    case (fails e)
    with Suc.prems show ?thesis by (simp add: walk_Suc_Inl del: walk.simps)
  next
    case (tag p)
    with Suc.prems have "walk r sh n (tag_object r p) ?st = Returns st'"
      by (simp add: walk_Suc_Tag del: walk.simps)
    from Suc.IH[OF this c] show ?thesis .
  next
    case (commit p)
    with Suc.prems have f: "for_parents r sh n h (commit_parent r p) ?st = Returns st'"
      by (simp add: walk_Suc_Commit del: walk.simps)
    have h: "h \<in> set (reads ?st)" by simp
    have ps: "set (commit_parent r p) \<subseteq> set (parents_of r sh h)"
      using commit by (simp add: parents_of_commit)
    show ?thesis using f h ps c
    proof (rule for_parents_keys_named[rotated])
      show "dom (visited s') \<subseteq> S \<union> named_by r sh (reads s')"
        if "walk r sh n k s = Returns s'" "dom (visited s) \<subseteq> S \<union> named_by r sh (reads s)" for k s s'
        using that by (rule Suc.IH)
    qed
  next
    case (shallow p)
    with Suc.prems c show ?thesis by (auto simp: walk_Suc_shallow simp del: walk.simps)
  next
    case (other t p)
    with Suc.prems show ?thesis by (simp add: walk_Suc_other del: walk.simps)
  qed
qed

lemma walk_all_keys_named:
  "walk_all r sh n hs st = Returns st' \<Longrightarrow> set hs \<subseteq> S \<Longrightarrow>
   dom (visited st) \<subseteq> S \<union> named_by r sh (reads st) \<Longrightarrow>
   dom (visited st') \<subseteq> S \<union> named_by r sh (reads st')"
proof (induction hs arbitrary: st)
  case Nil
  then show ?case by simp
next
  case (Cons h hs)
  let ?st = "st\<lparr>visited := (visited st)(h \<mapsto> \<lparr>children = []\<rparr>)\<rparr>"
  from Cons.prems(1) obtain st1 where
    w: "walk r sh n h ?st = Returns st1" and a: "walk_all r sh n hs st1 = Returns st'"
    by (auto split: outcome.splits)
  from Cons.prems(2,3) have "dom (visited ?st) \<subseteq> S \<union> named_by r sh (reads ?st)" by auto
  from walk_keys_named[OF w this] Cons.prems(2) show ?case
    by (intro Cons.IH[OF a]) simp_all
qed

lemma listCommits_keys_named:
  assumes "listCommits_run finish n a = Returns st"
    and "fs a = Some r" and "listBranches r = Inr start" and "shallow_read r = Inr sh"
    and "k \<in> dom (visited st)"
  shows "(\<exists>ref \<in> set start. resolve r ref = Inr k) \<or>
         (\<exists>c \<in> set (reads st). k \<in> set (parents_of r sh c))"
proof -
  from assms(1) obtain r' start' sh' hs where
    "fs a = Some r'" "listBranches r' = Inr start'" "shallow_read r' = Inr sh'"
    and rs: "resolve_start r' start' [] = Inr hs"
    and w: "walk_all r' sh' n hs \<lparr>visited = Map.empty, reads = []\<rparr> = Returns st"
    by (rule listCommits_run_Returns)
  with assms(2-4) have eq: "r' = r" "start' = start" "sh' = sh" by simp_all
  have "dom (visited st) \<subseteq> set hs \<union> named_by r sh (reads st)"
    by (rule walk_all_keys_named[OF w[unfolded eq]]) simp_all
  with assms(5) resolve_start_set[OF rs[unfolded eq]] show ?thesis
    by (auto simp: named_by_def)
qed

lemma walk_tag_children:
  assumes "deref_tags r k T = Some (tags, A)" and "walk r sh (k + n) T st = Returns st'"
    and "p \<in> set (parents_of r sh A)"
  shows "A \<in> set (children_of (visited st') p)"
proof -
  from assms(1,2) have "walk r sh n A (st\<lparr>reads := reads st @ tags\<rparr>) = Returns st'"
    by (simp add: walk_deref)
  from walk_children[OF this] obtain new where
    "count_list (children_of (visited st') p) A =
       count_list (children_of (visited (st\<lparr>reads := reads st @ tags\<rparr>)) p) A +
       edges_from r sh (A # new) p A"
    by blast
  moreover from assms(3) have "count_list (parents_of r sh A) p \<noteq> 0"
    by (simp add: count_list_0_iff)
  then have "edges_from r sh (A # new) p A \<noteq> 0" by (simp add: edges_from_def)
  ultimately have "count_list (children_of (visited st') p) A \<noteq> 0" by simp
  then show ?thesis by (simp add: count_list_0_iff)
qed

section \<open>An execution does not depend on the world it starts in\<close>

lemma answer_eq:
  "answer t = answer t' \<longleftrightarrow> fst t = fst t' \<and> fst (snd t) = fst (snd t')"
  by (simp add: answer_def)

lemma answer_triple [simp]: "answer (x, c, w) = (x, c)"
  by (simp add: answer_def)







section \<open>With its effects, the program computes \<^verbatim>\<open>listCommits\<close>\<close>










section \<open>The recursion budget does not show in an outcome\<close>

lemma listCommits_budget:
  assumes "listCommits n a = x" and "listCommits m a = y"
    and "x \<noteq> Diverges" and "y \<noteq> Diverges"
  shows "x = y"
proof (cases "n \<le> m")
  case True
  then obtain k where "m = n + k" using le_Suc_ex by blast
  with assms listCommits_from_fuel[of "[]" n a k] show ?thesis by (simp add: listCommits_def)
next
  case False
  then obtain k where "n = m + k" using le_Suc_ex nat_le_linear by blast
  with assms listCommits_from_fuel[of "[]" m a k] show ?thesis by (simp add: listCommits_def)
qed

section \<open>The claims\<close>

text \<open>
  C1 (tag transparency). As stated, the claim fails: the loop over the starting hashes
  binds every starting hash, also the hash of an annotated tag, to
  \<^verbatim>\<open>{ children: [] }\<close>, and \<^verbatim>\<open>walk\<close> never inserts the hash it is called with. So
  the tag is a key of the result and its target commit is not, unless a commit that is
  read names the target as a parent. What holds, for a starting hash \<open>T\<close> that leads
  through \<open>k\<close> annotated tags to \<open>A\<close>, when \<^verbatim>\<open>listCommits\<close> returns:
  \<^item> \<open>T\<close> is a key of the returned map;
  \<^item> every parent that the walk traverses at \<open>A\<close>, and everything reachable from such a
    parent, is a key of the returned map;
  \<^item> \<open>A\<close> is a key of the returned map only if it is itself a starting hash or a commit
    that was read names it as a parent;
  \<^item> walking \<open>T\<close> is walking \<open>A\<close> from the same map, once the tags have been read, and
    when that walk returns, \<open>A\<close> is among the children of every parent traversed at \<open>A\<close>.
\<close>

theorem tag_start:
  assumes "deref_tags r k T = Some (tags, A)"
    and "listCommits_run [] m a = Returns res" and "fs a = Some r"
    and "listBranches r = Inr start" and "shallow_read r = Inr shallows"
    and "ref \<in> set start" and "resolve r ref = Inr T"
  shows "listCommits m a = Returns (visited res) \<and>
         T \<in> dom (visited res) \<and>
         (\<forall>p c. p \<in> set (parents_of r shallows A) \<and> reachable r shallows p c \<longrightarrow>
            c \<in> dom (visited res)) \<and>
         (A \<in> dom (visited res) \<longrightarrow>
            (\<exists>ref' \<in> set start. resolve r ref' = Inr A) \<or>
            (\<exists>c \<in> set (reads res). A \<in> set (parents_of r shallows c))) \<and>
         walk r sh (k + n) T st = walk r sh n A (st\<lparr>reads := reads st @ tags\<rparr>) \<and>
         (\<forall>st' p. walk r sh (k + n) T st = Returns st' \<and> p \<in> set (parents_of r sh A) \<longrightarrow>
            A \<in> set (children_of (visited st') p))"
proof (intro conjI allI impI)
  from assms(2) show ret: "listCommits m a = Returns (visited res)"
    by (simp add: listCommits_def listCommits_from_def)
  then have lc: "listCommits_from [] m a = Returns (visited res)"
    by (simp add: listCommits_def)
  from lc assms(3,4,6,7) show T: "T \<in> dom (visited res)"
    by (rule listCommits_start_key)
  from lc assms(3,5) have closed: "closed_except r shallows {} (visited res)"
    by (rule listCommits_invariants)
  show "c \<in> dom (visited res)"
    if "p \<in> set (parents_of r shallows A) \<and> reachable r shallows p c" for p c
  proof -
    from closed_parents[OF closed T assms(1)] that have p: "p \<in> dom (visited res)" by blast
    from that have "reachable r shallows p c" by simp
    from closed_reachable[OF this closed p] show ?thesis .
  qed
  show "(\<exists>ref' \<in> set start. resolve r ref' = Inr A) \<or>
        (\<exists>c \<in> set (reads res). A \<in> set (parents_of r shallows c))"
    if "A \<in> dom (visited res)"
    using assms(2,3,4,5) that by (rule listCommits_keys_named)
  from assms(1) show "walk r sh (k + n) T st = walk r sh n A (st\<lparr>reads := reads st @ tags\<rparr>)"
    by (rule walk_deref)
  show "A \<in> set (children_of (visited st') p)"
    if "walk r sh (k + n) T st = Returns st' \<and> p \<in> set (parents_of r sh A)" for st' p
  proof -
    from that have w: "walk r sh (k + n) T st = Returns st'"
      and p: "p \<in> set (parents_of r sh A)" by simp_all
    from assms(1) w p show ?thesis by (rule walk_tag_children)
  qed
qed

theorem tag_start_witness:
  "\<exists>res. deref_tags history_tagged 1 ''T'' = Some ([''T''], ''A'') \<and>
       listCommits_run [] 3 (call history_tagged) = Returns res \<and>
       listCommits 3 (call history_tagged) = Returns (visited res) \<and>
       ''T'' \<in> dom (visited res) \<and>
       ''P'' \<in> set (parents_of history_tagged {} ''A'') \<and> ''P'' \<in> dom (visited res) \<and>
       ''A'' \<notin> dom (visited res) \<and>
       walk history_tagged {} (1 + 2) ''T'' \<lparr>visited = [''T'' \<mapsto> \<lparr>children = []\<rparr>], reads = []\<rparr> =
         Returns res \<and>
       ''A'' \<in> set (children_of (visited res) ''P'')"
proof -
  let ?st = "\<lparr>visited = [''T'' \<mapsto> \<lparr>children = []\<rparr>], reads = []\<rparr>"
  let ?res = "\<lparr>visited = [''T'' \<mapsto> \<lparr>children = []\<rparr>, ''P'' \<mapsto> \<lparr>children = [''A'']\<rparr>],
      reads = [''T'', ''A'', ''P'']\<rparr>"
  have run: "listCommits_run [] 3 (call history_tagged) = Returns ?res"
    by (simp add: eval_defs history_tagged_def)
  have w: "walk history_tagged {} (1 + 2) ''T'' ?st = Returns ?res"
    by (simp add: eval_defs history_tagged_def)
  have d: "deref_tags history_tagged 1 ''T'' = Some ([''T''], ''A'')"
    by (simp add: history_tagged_def store_repo_def)
  have p: "''P'' \<in> set (parents_of history_tagged {} ''A'')"
    by (simp add: parents_of_def history_tagged_def store_repo_def)
  have notA: "''A'' \<notin> dom (visited ?res)" by simp
  have "listCommits 3 (call history_tagged) = Returns (visited ?res) \<and>
      ''T'' \<in> dom (visited ?res) \<and>
      (\<forall>p c. p \<in> set (parents_of history_tagged {} ''A'') \<and> reachable history_tagged {} p c \<longrightarrow>
         c \<in> dom (visited ?res)) \<and>
      (''A'' \<in> dom (visited ?res) \<longrightarrow>
         (\<exists>ref' \<in> set [''v1'']. resolve history_tagged ref' = Inr ''A'') \<or>
         (\<exists>c \<in> set (reads ?res). ''A'' \<in> set (parents_of history_tagged {} c))) \<and>
      walk history_tagged {} (1 + 2) ''T'' ?st =
        walk history_tagged {} 2 ''A'' (?st\<lparr>reads := reads ?st @ [''T'']\<rparr>) \<and>
      (\<forall>st' p. walk history_tagged {} (1 + 2) ''T'' ?st = Returns st' \<and>
           p \<in> set (parents_of history_tagged {} ''A'') \<longrightarrow>
         ''A'' \<in> set (children_of (visited st') p))"
    by (rule tag_start[OF d run, where ref = "''v1''"])
      (simp_all add: call_def history_tagged_def store_repo_def)
  moreover have "reachable history_tagged {} ''P'' ''P''" by (rule reachable.start)
  ultimately have "listCommits 3 (call history_tagged) = Returns (visited ?res)"
    and "''T'' \<in> dom (visited ?res)" and "''P'' \<in> dom (visited ?res)"
    and "''A'' \<in> set (children_of (visited ?res) ''P'')"
    using p w by blast+
  with d run p notA w show ?thesis by blast
qed

theorem tag_is_key_counterexample:
  "children_at ''T'' (listCommits 3 (call history_tagged)) = Returns (Some []) \<and>
   children_at ''A'' (listCommits 3 (call history_tagged)) = Returns None \<and>
   children_at ''P'' (listCommits 3 (call history_tagged)) = Returns (Some [''A'']) \<and>
   children_at ''A'' (listCommits 3 (call history_untagged)) = Returns (Some [])"
  by (simp add: eval_defs history_tagged_def history_untagged_def)

text \<open>
  C2 (no duplicate expansion). The loop over the starting hashes (lines 101 to 104) walks
  every starting hash without asking whether it is a key already, which the loop over
  the parents does (line 87). With the branches \<open>develop\<close> at \<open>C\<close> and \<open>master\<close> at its
  parent \<open>B\<close>, the commit \<open>B\<close> is read and expanded twice: as the parent of \<open>C\<close>, and
  again as a starting hash. With a single starting hash, in an acyclic store without
  tags, no object is read twice (lemma \<open>single_start_exact\<close>).
\<close>

theorem start_expanded_twice:
  "map_outcome reads (listCommits_run [] 3 (call history_linear)) =
     Returns [''C'', ''B'', ''A'', ''B'']"
  by (simp add: eval_defs history_linear_def)

text \<open>
  C3 (children completeness). On the same repository the record of \<open>B\<close> is replaced by
  \<^verbatim>\<open>{ children: [] }\<close> when \<open>B\<close> has its turn as a starting hash, which loses its child
  \<open>C\<close>, and the second expansion of \<open>B\<close> appends \<open>B\<close> to the children of \<open>A\<close> once more.
  Whenever no object is read twice, the children of every key are exactly the commits
  read that name it as a parent (lemma \<open>children_exact\<close>).
\<close>

theorem children_lost_and_repeated:
  "children_at ''A'' (listCommits 3 (call history_linear)) = Returns (Some [''B'', ''B'']) \<and>
   children_at ''B'' (listCommits 3 (call history_linear)) = Returns (Some []) \<and>
   children_at ''C'' (listCommits 3 (call history_linear)) = Returns (Some [])"
  by (simp add: eval_defs history_linear_def)

text \<open>
  C4 (monotone growth). After the walk of the first starting hash \<open>C\<close> the record of \<open>B\<close>
  holds the child \<open>C\<close>; line 102 then replaces that record when \<open>B\<close> is the next
  starting hash. Within \<^verbatim>\<open>walk\<close> itself the map does grow monotonically (lemma
  \<open>walk_grows\<close>), and no key is ever removed (lemma \<open>walk_all_dom\<close>).
\<close>

theorem record_replaced:
  "children_at ''B'' (map_outcome visited
     (walk_all history_linear {} 3 [''C''] \<lparr>visited = Map.empty, reads = []\<rparr>)) =
       Returns (Some [''C'']) \<and>
   children_at ''B'' (map_outcome visited
     (walk_all history_linear {} 3 [''C'', ''B''] \<lparr>visited = Map.empty, reads = []\<rparr>)) =
       Returns (Some [])"
  by (simp add: eval_defs history_linear_def)

text \<open>
  C5 (shallow cutoff). Walking a commit of the shallow set reads that commit and nothing
  else, and leaves \<^verbatim>\<open>visited\<close> as it is, whatever parents its payload names. When the
  only starting reference resolves to the shallow commit \<open>S\<close>, the result is exactly
  \<open>S\<close> bound to no children: no parent of \<open>S\<close> is a key.
\<close>

theorem shallow_cutoff:
  assumes "readObject r S = Inr (Commit, p)" and "S \<in> sh"
  shows "walk r sh (Suc n) S st = Returns (st\<lparr>reads := reads st @ [S]\<rparr>) \<and>
    (fs a = Some r \<and> gitdir a = Some g \<and> listBranches r = Inr [ref] \<and>
     shallow_read r = Inr sh \<and> resolve r ref = Inr S \<longrightarrow>
       listCommits_run [] (Suc n) a =
         Returns \<lparr>visited = [S \<mapsto> \<lparr>children = []\<rparr>], reads = [S]\<rparr>)"
proof (intro conjI impI)
  show w: "walk r sh (Suc n) S st = Returns (st\<lparr>reads := reads st @ [S]\<rparr>)" for st
    using assms by (simp add: walk_Suc_shallow del: walk.simps)
  assume h: "fs a = Some r \<and> gitdir a = Some g \<and> listBranches r = Inr [ref] \<and>
     shallow_read r = Inr sh \<and> resolve r ref = Inr S"
  then have "resolve_start r [ref] [] = Inr [S]" by (simp add: set_add_def)
  with h have "listCommits_run [] (Suc n) a =
     rethrow (walk_all r sh (Suc n) [S] \<lparr>visited = Map.empty, reads = []\<rparr>)"
    by (intro listCommits_run_eq[where g=g and start="[ref]"]) blast+
  then show "listCommits_run [] (Suc n) a =
         Returns \<lparr>visited = [S \<mapsto> \<lparr>children = []\<rparr>], reads = [S]\<rparr>"
    by (simp add: w rethrow_def del: walk.simps)
qed

theorem shallow_cutoff_witness:
  "readObject history_shallow ''S'' = Inr (Commit, [''P'']) \<and> ''S'' \<in> set [''S''] \<and>
   listCommits_run [] (Suc 0) (call history_shallow) =
     Returns \<lparr>visited = [''S'' \<mapsto> \<lparr>children = []\<rparr>], reads = [''S'']\<rparr>"
  using shallow_cutoff[where r = history_shallow and S = "''S''" and p = "[''P'']"
      and sh = "set [''S'']" and a = "call history_shallow" and g = "''.git''"
      and ref = "''master''" and n = 0]
  by (simp add: store_repo_def call_def history_shallow_def)

text \<open>
  C6 (reachability completeness). When \<^verbatim>\<open>listCommits\<close> returns a map, every object id
  that is reachable from a starting hash along parent edges, none of them leaving a
  commit of the shallow set, is a key of the map.
\<close>

theorem reachability_completeness:
  assumes "listCommits n a = Returns v"
    and "fs a = Some r" and "listBranches r = Inr start" and "shallow_read r = Inr sh"
    and "ref \<in> set start" and "resolve r ref = Inr s"
    and "reachable r sh s c"
  shows "c \<in> dom v"
proof -
  from assms(1,2,3,5,6) have s: "s \<in> dom v"
    unfolding listCommits_def by (rule listCommits_start_key)
  from assms(1,2,4) have "closed_except r sh {} v"
    unfolding listCommits_def by (rule listCommits_invariants)
  from closed_reachable[OF assms(7) this s] show ?thesis .
qed

theorem reachability_completeness_witness:
  "\<exists>v. listCommits 3 (call history_linear) = Returns v \<and>
       reachable history_linear {} ''C'' ''A'' \<and> ''A'' \<in> dom v"
proof -
  obtain v where v: "listCommits 3 (call history_linear) = Returns v"
    by (simp add: eval_defs history_linear_def)
  have "reachable history_linear {} ''C'' ''B''"
    by (rule reachable.parent[OF reachable.start])
      (simp add: parents_of_def history_linear_def store_repo_def)
  then have r: "reachable history_linear {} ''C'' ''A''"
    by (rule reachable.parent) (simp add: parents_of_def history_linear_def store_repo_def)
  have "''A'' \<in> dom v"
    by (rule reachability_completeness[where ref = "''develop''" and r = history_linear
          and start = "[''develop'', ''master'']", OF v _ _ _ _ _ r])
      (simp_all add: call_def history_linear_def store_repo_def)
  with v r show ?thesis by blast
qed

text \<open>
  C7 (object type error). As stated, the claim fails when the hash that is expanded is
  an annotated tag of an object that is not a commit: the error then names the object
  the tags lead to, not the hash that was expanded. What holds: when \<open>h\<close> leads through
  \<open>k\<close> tags (none, when \<open>h\<close> itself is the object) to an object \<open>x\<close> that is neither
  a commit nor a tag, walking \<open>h\<close> throws the \<^verbatim>\<open>ObjectTypeError\<close> that names \<open>x\<close>, its
  type and the expected type \<^verbatim>\<open>commit\<close>; when \<open>h\<close> is the first starting hash,
  \<^verbatim>\<open>listCommits\<close> throws that error; and whenever \<open>h\<close> is a starting hash or reachable
  from one along parent edges, \<^verbatim>\<open>listCommits\<close> returns no map.
\<close>

theorem object_type_error:
  assumes "deref_tags r k h = Some (tags, x)" and "readObject r x = Inr (t, p)"
    and "t \<noteq> Tag" and "t \<noteq> Commit"
  shows "walk r sh (Suc (k + n)) h st =
           Throws \<lparr>kind = ObjectTypeError x t Commit, caller = None\<rparr> \<and>
    (fs a = Some r \<and> gitdir a = Some g \<and> listBranches r = Inr start \<and>
     shallow_read r = Inr sh \<and> resolve_start r start [] = Inr (h # hs) \<longrightarrow>
       listCommits (Suc (k + n)) a =
         Throws \<lparr>kind = ObjectTypeError x t Commit, caller = Some ''git.listBranches''\<rparr>) \<and>
    (fs a = Some r \<and> listBranches r = Inr start \<and> shallow_read r = Inr sh \<and>
     ref \<in> set start \<and> resolve r ref = Inr s \<and> reachable r sh s h \<longrightarrow>
       listCommits m a \<noteq> Returns v)"
proof (intro conjI impI)
  have "walk r sh (k + Suc n) h st = walk r sh (Suc n) x (st\<lparr>reads := reads st @ tags\<rparr>)" for st
    using assms(1) by (rule walk_deref)
  then show w: "walk r sh (Suc (k + n)) h st =
           Throws \<lparr>kind = ObjectTypeError x t Commit, caller = None\<rparr>" for st
    using assms(2-4) by (simp add: walk_Suc_other del: walk.simps)
  show "listCommits (Suc (k + n)) a =
         Throws \<lparr>kind = ObjectTypeError x t Commit, caller = Some ''git.listBranches''\<rparr>"
    if "fs a = Some r \<and> gitdir a = Some g \<and> listBranches r = Inr start \<and>
     shallow_read r = Inr sh \<and> resolve_start r start [] = Inr (h # hs)"
  proof -
    from that have "listCommits_run [] (Suc (k + n)) a =
      rethrow (walk_all r sh (Suc (k + n)) (h # hs) \<lparr>visited = Map.empty, reads = []\<rparr>)"
      by (intro listCommits_run_eq[where g=g and start=start]) blast+
    then show ?thesis
      by (simp add: listCommits_def listCommits_from_def w rethrow_def del: walk.simps)
  qed
  show "listCommits m a \<noteq> Returns v"
    if hyp: "fs a = Some r \<and> listBranches r = Inr start \<and> shallow_read r = Inr sh \<and>
     ref \<in> set start \<and> resolve r ref = Inr s \<and> reachable r sh s h"
  proof
    assume "listCommits m a = Returns v"
    then have ret: "listCommits_from [] m a = Returns v" by (simp add: listCommits_def)
    from hyp have a: "fs a = Some r" "listBranches r = Inr start" "shallow_read r = Inr sh"
      "ref \<in> set start" "resolve r ref = Inr s" and reach: "reachable r sh s h"
      by simp_all
    from ret a(1,2,4,5) have s: "s \<in> dom v" by (rule listCommits_start_key)
    from ret a(1,3) have closed: "closed_except r sh {} v" and checked: "checked_except r {} v"
      by (rule listCommits_invariants)+
    from closed_reachable[OF reach closed s] have "h \<in> dom v" .
    with checked have "leads_to_commit r h" by (simp add: checked_except_def)
    with not_leads_to_commit[OF assms] show False by simp
  qed
qed

theorem object_type_error_witness:
  "deref_tags tag_of_tree 1 ''T'' = Some ([''T''], ''X'') \<and>
   readObject tag_of_tree ''X'' = Inr (Tree, []) \<and>
   walk tag_of_tree {} (Suc (1 + 0)) ''T'' \<lparr>visited = Map.empty, reads = []\<rparr> =
     Throws \<lparr>kind = ObjectTypeError ''X'' Tree Commit, caller = None\<rparr> \<and>
   listCommits (Suc (1 + 0)) (call tag_of_tree) =
     Throws \<lparr>kind = ObjectTypeError ''X'' Tree Commit, caller = Some ''git.listBranches''\<rparr> \<and>
   reachable tag_of_tree {} ''T'' ''T'' \<and>
   listCommits 5 (call tag_of_tree) \<noteq> Returns Map.empty"
proof -
  have d: "deref_tags tag_of_tree 1 ''T'' = Some ([''T''], ''X'')"
    and x: "readObject tag_of_tree ''X'' = Inr (Tree, [])"
    by (simp_all add: tag_of_tree_def store_repo_def)
  have s: "fs (call tag_of_tree) = Some tag_of_tree \<and> gitdir (call tag_of_tree) = Some ''.git'' \<and>
      listBranches tag_of_tree = Inr [''v1''] \<and> shallow_read tag_of_tree = Inr {} \<and>
      resolve_start tag_of_tree [''v1''] [] = Inr [''T''] \<and> ''v1'' \<in> set [''v1''] \<and>
      resolve tag_of_tree ''v1'' = Inr ''T''"
    by (simp add: call_def tag_of_tree_def store_repo_def set_add_def)
  have r: "reachable tag_of_tree {} ''T'' ''T''" by (rule reachable.start)
  from object_type_error[OF d x, where a = "call tag_of_tree" and g = "''.git''"
      and start = "[''v1'']" and sh = "{}" and hs = "[]" and n = 0 and ref = "''v1''"
      and s = "''T''" and m = 5 and v = Map.empty
      and st = "\<lparr>visited = Map.empty, reads = []\<rparr>"] s r d x
  show ?thesis by blast
qed

theorem object_type_error_counterexample:
  "listCommits 2 (call tag_of_tree) =
     Throws \<lparr>kind = ObjectTypeError ''X'' Tree Commit, caller = Some ''git.listBranches''\<rparr> \<and>
   listCommits 2 (call tag_of_tree) \<noteq>
     Throws \<lparr>kind = ObjectTypeError ''T'' Tree Commit, caller = Some ''git.listBranches''\<rparr>"
  by (simp add: eval_defs tag_of_tree_def)



text \<open>
  C9 (the finishing set is inert). Whatever the list \<^verbatim>\<open>finish\<close> holds, and whether or
  not its references resolve, the walk reads the same objects and \<^verbatim>\<open>listCommits\<close> has
  the same outcome as with the empty list of line 52: a failure to resolve a finishing
  reference is not thrown, and the finishing set is never looked at.
\<close>

theorem finish_is_inert:
  "listCommits_run finish n a = listCommits_run [] n a \<and>
   listCommits_from finish n a = listCommits n a"
  by (simp add: listCommits_def listCommits_from_def listCommits_run_def listCommits_try_def Let_def
      split: sum.splits option.splits)

theorem finish_is_inert_witness:
  "resolve history_linear ''gone'' = Inl not_found \<and>
   listCommits_from [''gone'', ''master''] 3 (call history_linear) =
     listCommits 3 (call history_linear)"
  using finish_is_inert[of "[''gone'', ''master'']" 3 "call history_linear"]
  by (simp add: history_linear_def store_repo_def)

text \<open>
  C10 (the caller of a thrown error). As stated, the claim fails for a missing
  parameter: when \<^verbatim>\<open>gitdir\<close> and \<^verbatim>\<open>dir\<close> are both undefined, the default
  \<^verbatim>\<open>join(dir, '.git')\<close> of line 42 throws a \<^verbatim>\<open>TypeError\<close> before the \<^verbatim>\<open>try\<close> block
  is entered, and that error has no \<^verbatim>\<open>caller\<close>. What holds: in every other call, each
  error that \<^verbatim>\<open>listCommits\<close> throws (for a missing \<^verbatim>\<open>fs\<close>, a failure to list the
  branches or to read the shallow file, a starting reference that does not resolve, an
  object that cannot be read, an object of the wrong type) carries the \<^verbatim>\<open>caller\<close>
  property \<^verbatim>\<open>'git.listBranches'\<close>.
\<close>

theorem thrown_caller:
  "(gitdir a = None \<and> dir a = None \<longrightarrow>
      listCommits n a = Throws \<lparr>kind = TypeError, caller = None\<rparr>) \<and>
   ((gitdir a \<noteq> None \<or> dir a \<noteq> None) \<and> listCommits n a = Throws err \<longrightarrow>
      caller err = Some ''git.listBranches'')"
proof (intro conjI impI)
  assume "gitdir a = None \<and> dir a = None"
  then show "listCommits n a = Throws \<lparr>kind = TypeError, caller = None\<rparr>"
    by (simp add: listCommits_def listCommits_from_def listCommits_run_def default_gitdir_def
        join_def)
next
  assume h: "(gitdir a \<noteq> None \<or> dir a \<noteq> None) \<and> listCommits n a = Throws err"
  then have "\<exists>gd. default_gitdir a = Inr gd"
    by (cases "gitdir a"; cases "dir a") (simp_all add: default_gitdir_def join_def)
  then obtain gd where "default_gitdir a = Inr gd" by blast
  with h show "caller err = Some ''git.listBranches''"
    by (auto simp: listCommits_def listCommits_from_def listCommits_run_def map_outcome_Throws
        rethrow_def split: outcome.splits)
qed

theorem thrown_caller_witness:
  "listCommits 1 no_fs =
     Throws \<lparr>kind = MissingParameterError ''fs'', caller = Some ''git.listBranches''\<rparr> \<and>
   listCommits 1 (call ref_dangling) =
     Throws \<lparr>kind = CollaboratorError ''NotFoundError'', caller = Some ''git.listBranches''\<rparr> \<and>
   listCommits 1 (call object_absent) =
     Throws \<lparr>kind = CollaboratorError ''NotFoundError'', caller = Some ''git.listBranches''\<rparr> \<and>
   listCommits 1 (call ref_to_tree) =
     Throws \<lparr>kind = ObjectTypeError ''X'' Tree Commit, caller = Some ''git.listBranches''\<rparr> \<and>
   listCommits 1 (no_dir history_linear) = Throws \<lparr>kind = TypeError, caller = None\<rparr>"
  using thrown_caller[of no_fs 1
      "\<lparr>kind = MissingParameterError ''fs'', caller = Some ''git.listBranches''\<rparr>"]
    thrown_caller[of "no_dir history_linear" 1]
  by (simp add: eval_defs no_fs_def no_dir_def ref_dangling_def object_absent_def ref_to_tree_def)

theorem thrown_caller_counterexample:
  "listCommits 1 (no_dir history_linear) = Throws \<lparr>kind = TypeError, caller = None\<rparr> \<and>
   caller \<lparr>kind = TypeError, caller = None\<rparr> \<noteq> Some ''git.listBranches''"
  by (simp add: eval_defs no_dir_def)

end
